theory Spec2Isabelle
  imports Main
begin

section \<open>Strings and the interpreter's character tables\<close>

text \<open>
  A Python \<open>str\<close> is a sequence of Unicode code points, so a string is a list of
  integers here (what \<open>ord\<close> gives) and \<open>length\<close> counts code points as \<open>len\<close> does.
  \<open>str ''abc''\<close> writes an ASCII literal.
\<close>

type_synonym pystr = "int list"

definition ord :: "char \<Rightarrow> int" where
  "ord c = of_char c"

definition str :: "string \<Rightarrow> pystr" where
  "str s = map ord s"

text \<open>
  Three tables belong to the interpreter and not to the checker: which code points are
  white space (\<open>str.strip\<close>, \<open>str.split\<close> and \<open>\s\<close> all read the same one), which are
  decimal digits (\<open>\d\<close> in a \<open>str\<close> pattern), and \<open>str.lower\<close>, which is not even
  character-wise outside ASCII. They are parameters of every function below.
\<close>

record unicode_db =
  isspace :: "int \<Rightarrow> bool"
  isdecimal :: "int \<Rightarrow> bool"
  lower :: "pystr \<Rightarrow> pystr"

definition ascii_isspace :: "int \<Rightarrow> bool" where
  "ascii_isspace c = ((9 \<le> c \<and> c \<le> 13) \<or> (28 \<le> c \<and> c \<le> 32))"

definition ascii_isdigit :: "int \<Rightarrow> bool" where
  "ascii_isdigit c = (ord CHR ''0'' \<le> c \<and> c \<le> ord CHR ''9'')"

definition ascii_lower :: "int \<Rightarrow> int" where
  "ascii_lower c = (if ord CHR ''A'' \<le> c \<and> c \<le> ord CHR ''Z'' then c + 32 else c)"

text \<open>The tables cut down to ASCII: what they are on every code point below 128.\<close>

definition ascii_db :: unicode_db where
  "ascii_db = \<lparr> isspace = ascii_isspace, isdecimal = ascii_isdigit, lower = map ascii_lower \<rparr>"

text \<open>
  What the theorems below use of the interpreter's tables: on ASCII they are the ASCII
  ones, lower-casing an all-ASCII string works character by character, and no decimal
  digit is white space.
\<close>

definition python_tables :: "unicode_db \<Rightarrow> bool" where
  "python_tables U =
     ((\<forall>c. c < 128 \<longrightarrow> isspace U c = ascii_isspace c) \<and>
      (\<forall>c. c < 128 \<longrightarrow> isdecimal U c = ascii_isdigit c) \<and>
      (\<forall>s. list_all (\<lambda>c. c < 128) s \<longrightarrow> lower U s = map ascii_lower s) \<and>
      (\<forall>c. isdecimal U c \<longrightarrow> \<not> isspace U c))"

subsection \<open>\<open>str.strip()\<close>, \<open>str.split()\<close>, \<open>in\<close>\<close>

definition strip :: "unicode_db \<Rightarrow> pystr \<Rightarrow> pystr" where
  "strip U s = rev (dropWhile (isspace U) (rev (dropWhile (isspace U) s)))"

text \<open>\<open>s.split()\<close>: the maximal runs of characters that are not white space.\<close>

function split_ws :: "unicode_db \<Rightarrow> pystr \<Rightarrow> pystr list" where
  "split_ws U s =
     (case dropWhile (isspace U) s of
        [] \<Rightarrow> []
      | c # cs \<Rightarrow> (c # takeWhile (\<lambda>x. \<not> isspace U x) cs)
                 # split_ws U (dropWhile (\<lambda>x. \<not> isspace U x) cs))"
  by pat_completeness auto
termination
proof (relation "measure (\<lambda>(U, s). length s)")
  show "wf (measure (\<lambda>(U, s). length s))" by simp
next
  fix U :: unicode_db and s :: pystr and c cs
  assume a: "dropWhile (isspace U) s = c # cs"
  have "length (dropWhile (\<lambda>x. \<not> isspace U x) cs) \<le> length cs"
    by (rule length_dropWhile_le)
  moreover have "length (c # cs) \<le> length s"
    using length_dropWhile_le [of "isspace U" s] a by simp
  ultimately show "((U, dropWhile (\<lambda>x. \<not> isspace U x) cs), (U, s)) \<in> measure (\<lambda>(U, s). length s)"
    by simp
qed

declare split_ws.simps [simp del]

text \<open>\<open>s.split(sep, 1)[0]\<close> for a one-character separator: the text before the first one.\<close>

definition before_first :: "int \<Rightarrow> pystr \<Rightarrow> pystr" where
  "before_first sep s = takeWhile (\<lambda>c. c \<noteq> sep) s"

text \<open>\<open>kw in s\<close> on strings: \<open>kw\<close> occurs as a contiguous run.\<close>

fun contains :: "pystr \<Rightarrow> pystr \<Rightarrow> bool" where
  "contains kw [] = (kw = [])"
| "contains kw (c # cs) = (take (length kw) (c # cs) = kw \<or> contains kw cs)"

section \<open>Regular expressions as \<open>re\<close> runs them\<close>

text \<open>
  The patterns of the checker, as syntax trees, and a backtracking matcher that tries
  the alternatives in the order \<open>re\<close> does: a greedy repetition tries one more round
  before stopping, a lazy one stops before trying one more round.
\<close>

datatype citem = Ch int | Rng int int | Dig | Spc

fun in_item :: "unicode_db \<Rightarrow> citem \<Rightarrow> int \<Rightarrow> bool" where
  "in_item U (Ch a) c = (c = a)"
| "in_item U (Rng a b) c = (a \<le> c \<and> c \<le> b)"
| "in_item U Dig c = isdecimal U c"
| "in_item U Spc c = isspace U c"

datatype rx =
    Any "citem list"    \<comment> \<open>\<open>[...]\<close>, also a literal or an escape such as \<open>\d\<close>\<close>
  | Non "citem list"    \<comment> \<open>\<open>[^...]\<close>\<close>
  | Seq rx rx
  | Opt rx              \<comment> \<open>\<open>r?\<close>\<close>
  | Star rx             \<comment> \<open>\<open>r*\<close>\<close>
  | Lazy rx             \<comment> \<open>\<open>r*?\<close>\<close>
  | Grp nat rx          \<comment> \<open>capturing group number \<open>n\<close>\<close>
  | Eol                 \<comment> \<open>\<open>$\<close>: at the end, or before a newline that ends the string\<close>

type_synonym captures = "(nat \<times> pystr) list"

text \<open>
  \<open>ends U r s\<close>: every way \<open>r\<close> matches a prefix of \<open>s\<close>, as the groups captured and the
  text left over, in the order the backtracking search reaches them. The first element
  is the match \<open>re\<close> reports. A repetition only goes round again after a round that
  consumed something.
\<close>

fun ends :: "unicode_db \<Rightarrow> rx \<Rightarrow> pystr \<Rightarrow> (captures \<times> pystr) list" where
  "ends U (Any is) s =
     (case s of [] \<Rightarrow> []
      | c # cs \<Rightarrow> if list_ex (\<lambda>i. in_item U i c) is then [([], cs)] else [])"
| "ends U (Non is) s =
     (case s of [] \<Rightarrow> []
      | c # cs \<Rightarrow> if list_ex (\<lambda>i. in_item U i c) is then [] else [([], cs)])"
| "ends U (Seq a b) s =
     concat (map (\<lambda>(g1, r1). map (\<lambda>(g2, r2). (g2 @ g1, r2)) (ends U b r1)) (ends U a s))"
| "ends U (Opt a) s = ends U a s @ [([], s)]"
| "ends U (Star a) s =
     concat (map (\<lambda>(g1, r1).
                    if length r1 < length s
                    then map (\<lambda>(g2, r2). (g2 @ g1, r2)) (ends U (Star a) r1) else [])
                 (ends U a s))
     @ [([], s)]"
| "ends U (Lazy a) s =
     ([], s)
     # concat (map (\<lambda>(g1, r1).
                      if length r1 < length s
                      then map (\<lambda>(g2, r2). (g2 @ g1, r2)) (ends U (Lazy a) r1) else [])
                   (ends U a s))"
| "ends U (Grp n a) s =
     map (\<lambda>(g, r). ((n, take (length s - length r) s) # g, r)) (ends U a s)"
| "ends U Eol s = (if s = [] \<or> s = [ord (CHR 0x0A)] then [([], s)] else [])"


text \<open>The two equations for repetition unfold for ever; they are used by hand.\<close>

declare ends.simps(5,6) [simp del]

text \<open>\<open>re.match\<close>, used for its truth value: the pattern matches at the start.\<close>

definition re_match :: "unicode_db \<Rightarrow> rx \<Rightarrow> pystr \<Rightarrow> bool" where
  "re_match U p s = (ends U p s \<noteq> [])"

text \<open>
  \<open>re.search\<close>: the match at the leftmost position that has one, as its groups and
  \<open>group(0)\<close>.
\<close>

fun re_search :: "unicode_db \<Rightarrow> rx \<Rightarrow> pystr \<Rightarrow> (captures \<times> pystr) option" where
  "re_search U p [] =
     (case ends U p [] of [] \<Rightarrow> None | (g, r) # _ \<Rightarrow> Some (g, []))"
| "re_search U p (c # cs) =
     (case ends U p (c # cs) of
        [] \<Rightarrow> re_search U p cs
      | (g, r) # _ \<Rightarrow> Some (g, take (length (c # cs) - length r) (c # cs)))"

text \<open>
  \<open>pattern.finditer\<close>: the matches from left to right, each search starting where the
  match before it ended. No pattern of the checker matches the empty string (each
  starts with a character class), so the scan never has to step over an empty match;
  the model moves on by one character there.
\<close>

function finditer :: "unicode_db \<Rightarrow> rx \<Rightarrow> pystr \<Rightarrow> (captures \<times> pystr) list" where
  "finditer U p [] = []"
| "finditer U p (c # cs) =
     (case ends U p (c # cs) of
        [] \<Rightarrow> finditer U p cs
      | (g, r) # _ \<Rightarrow>
          if length r < length (c # cs)
          then (g, take (length (c # cs) - length r) (c # cs)) # finditer U p r
          else finditer U p cs)"
  by pat_completeness auto
termination
  by (relation "measure (\<lambda>(U, p, s). length s)") auto

text \<open>\<open>re.sub(p, "", s)\<close>: the same scan, keeping what lies between the matches.\<close>

function re_sub_del :: "unicode_db \<Rightarrow> rx \<Rightarrow> pystr \<Rightarrow> pystr" where
  "re_sub_del U p [] = []"
| "re_sub_del U p (c # cs) =
     (case ends U p (c # cs) of
        [] \<Rightarrow> c # re_sub_del U p cs
      | (g, r) # _ \<Rightarrow>
          if length r < length (c # cs) then re_sub_del U p r
          else c # re_sub_del U p cs)"
  by pat_completeness auto
termination
  by (relation "measure (\<lambda>(U, p, s). length s)") auto

primrec seqs :: "rx \<Rightarrow> rx list \<Rightarrow> rx" where
  "seqs r [] = r"
| "seqs r (x # xs) = Seq r (seqs x xs)"

definition lit :: "char \<Rightarrow> rx" where
  "lit c = Any [Ch (ord c)]"

text \<open>\<open>\d{4}[a-z]?\<close>, the year token of every pattern.\<close>

definition year_rx :: rx where
  "year_rx = seqs (Any [Dig]) [Any [Dig], Any [Dig], Any [Dig],
                               Opt (Any [Rng (ord CHR ''a'') (ord CHR ''z'')])]"

section \<open>\<open>extract_citations\<close>\<close>

definition no_paren :: rx where
  "no_paren = Non [Ch (ord CHR ''(''), Ch (ord CHR '')'')]"

definition citation_rx :: rx where
  "citation_rx =
     seqs (lit CHR ''('')
       [Lazy no_paren,
        year_rx, Lazy no_paren,
        Star (seqs (Any [Ch (ord CHR '';''), Ch (ord CHR '','')])
                [Star no_paren, year_rx, Star no_paren]),
        lit CHR '')'']"

definition extract_citations :: "unicode_db \<Rightarrow> pystr \<Rightarrow> pystr list" where
  "extract_citations U text =
     (let citations_raw = map snd (finditer U citation_rx text);
          citations_clean = map (\<lambda>c. strip U (butlast (tl c))) citations_raw
      in citations_clean)"

section \<open>\<open>normalize_author\<close>\<close>

definition et_al_rx :: rx where
  "et_al_rx = seqs (lit CHR ''e'') [lit CHR ''t'', lit CHR '' '', lit CHR ''a'', lit CHR ''l'',
                                    lit CHR ''.'']"

text \<open>\<open>^[A-Z]\.?$\<close> under \<open>re.match\<close>, which already starts at the beginning.\<close>

definition initial_rx :: rx where
  "initial_rx = seqs (Any [Rng (ord CHR ''A'') (ord CHR ''Z'')]) [Opt (lit CHR ''.''), Eol]"

definition strange_rx :: rx where
  "strange_rx = Non [Rng (ord CHR ''A'') (ord CHR ''Z''), Rng (ord CHR ''a'') (ord CHR ''z''),
                     Ch (ord CHR ''-''), Ch (ord (CHR 0x27)), Spc]"

definition normalize_author :: "unicode_db \<Rightarrow> pystr \<Rightarrow> pystr" where
  "normalize_author U author0 =
     (let author1 = strip U author0;
          author2 = strip U (re_sub_del U et_al_rx author1);
          author3 = (if ord CHR '','' \<in> set author2
                     then strip U (before_first (ord CHR '','') author2) else author2);
          tokens = split_ws U author3
      in if tokens = [] then []
         else let surname = (if length tokens \<ge> 2 \<and> re_match U initial_rx (hd tokens)
                             then last tokens else hd tokens)
              in lower U (re_sub_del U strange_rx surname))"

section \<open>\<open>build_citation_keys\<close>\<close>

definition author_year_rx :: rx where
  "author_year_rx =
     seqs (Grp 1 (Seq (Any [Rng (ord CHR ''A'') (ord CHR ''Z'')])
                      (Lazy (Non [Ch (ord CHR '','')]))))
       [lit CHR '','', Star (Any [Spc]), Grp 2 year_rx]"

text \<open>The f-string \<open>f"{author_norm}|{year}"\<close>.\<close>

definition make_key :: "pystr \<Rightarrow> pystr \<Rightarrow> pystr" where
  "make_key author_norm year = author_norm @ [ord CHR ''|''] @ year"

text \<open>
  The body of the inner loop, for one match \<open>m\<close> in the citation \<open>cit\<close>. In every match
  of the pattern both groups took part (\<open>add_match_groups\<close> below), so the last case is
  never reached.
\<close>

definition add_match ::
  "unicode_db \<Rightarrow> pystr \<Rightarrow> captures \<times> pystr \<Rightarrow> (pystr \<rightharpoonup> pystr set) \<Rightarrow> (pystr \<rightharpoonup> pystr set)" where
  "add_match U cit m key_to_examples =
     (case (map_of (fst m) 1, map_of (fst m) 2) of
        (Some g1, Some year) \<Rightarrow>
          (let raw_author_part = strip U g1;
               author_norm = normalize_author U raw_author_part
           in if author_norm = [] then key_to_examples
              else let key = make_key author_norm year
                   in key_to_examples
                        (key \<mapsto> insert cit (case key_to_examples key of
                                               None \<Rightarrow> {} | Some ex \<Rightarrow> ex)))
      | _ \<Rightarrow> key_to_examples)"

definition build_citation_keys :: "unicode_db \<Rightarrow> pystr list \<Rightarrow> (pystr \<rightharpoonup> pystr set)" where
  "build_citation_keys U citation_strings =
     fold (\<lambda>cit. fold (add_match U cit) (finditer U author_year_rx cit))
          citation_strings Map.empty"


section \<open>\<open>extract_reference_paragraphs\<close>\<close>

text \<open>
  What the checker reads of a \<open>.docx\<close> file: the text of each paragraph, in order, and
  the text of each cell of each row of each table.
\<close>

record document =
  paragraphs :: "pystr list"
  tables :: "pystr list list list"

text \<open>The last four keywords are the Chinese words for a reference list.\<close>

definition heading_keywords :: "pystr list" where
  "heading_keywords =
     [str ''references'',
      str ''reference'',
      str ''bibliography'',
      str ''literature cited'',
      str ''works cited'',
      [0x53C2, 0x8003, 0x6587, 0x732E],
      [0x53C3, 0x8003, 0x6587, 0x737B],
      [0x6587, 0x732E],
      [0x6587, 0x737B]]"

text \<open>One round of the loop over the paragraphs; the state is \<open>(refs_started, refs)\<close>.\<close>

definition ref_step :: "unicode_db \<Rightarrow> pystr \<Rightarrow> bool \<times> pystr list \<Rightarrow> bool \<times> pystr list" where
  "ref_step U p st =
     (let refs_started = fst st; refs = snd st;
          text = strip U p;
          text_lower = lower U text
      in if \<not> refs_started
         then (if list_ex (\<lambda>kw. contains kw text_lower) heading_keywords
               then (True, refs) else (refs_started, refs))
         else if text = [] then (refs_started, refs)
         else (refs_started, refs @ [text]))"

definition extract_reference_paragraphs :: "unicode_db \<Rightarrow> document \<Rightarrow> pystr list" where
  "extract_reference_paragraphs U doc = snd (fold (ref_step U) (paragraphs doc) (False, []))"

section \<open>\<open>parse_reference_entries\<close>\<close>

record ref_entry =
  index :: nat
  raw :: pystr
  author_norm :: pystr
  year :: pystr
  key :: pystr

text \<open>
  The body of the loop for line \<open>text\<close> at position \<open>i\<close>: the entry appended, or
  \<open>None\<close> where the loop says \<open>continue\<close>. The pattern is one group around the whole
  year token, so \<open>m.group(1)\<close> is the text matched.
\<close>

definition parse_line :: "unicode_db \<Rightarrow> nat \<times> pystr \<Rightarrow> ref_entry option" where
  "parse_line U it =
     (let i = fst it; text = snd it
      in case re_search U (Grp 1 year_rx) text of
           None \<Rightarrow> None
         | Some m \<Rightarrow>
             (case map_of (fst m) 1 of
                None \<Rightarrow> None
              | Some y \<Rightarrow>
                  (let first_author_part = strip U (before_first (ord CHR '','') text);
                       a = normalize_author U first_author_part
                   in if a = [] then None
                      else Some \<lparr> index = i, raw = text, author_norm = a, year = y,
                                  key = make_key a y \<rparr>)))"

definition parse_reference_entries :: "unicode_db \<Rightarrow> pystr list \<Rightarrow> ref_entry list" where
  "parse_reference_entries U ref_lines = List.map_filter (parse_line U) (enumerate 0 ref_lines)"

section \<open>\<open>main\<close>\<close>

text \<open>\<open>"\n".join(parts)\<close>.\<close>

fun join_lines :: "pystr list \<Rightarrow> pystr" where
  "join_lines [] = []"
| "join_lines [p] = p"
| "join_lines (p # q # ps) = p @ [ord (CHR 0x0A)] @ join_lines (q # ps)"

definition extract_text_from_docx :: "document \<Rightarrow> pystr" where
  "extract_text_from_docx doc =
     (let parts = filter (\<lambda>t. t \<noteq> []) (paragraphs doc)
                  @ filter (\<lambda>t. t \<noteq> []) (concat (concat (tables doc)))
      in join_lines parts)"

text \<open>
  The last line of the report, one of three:
  \<^item> \<open>Undetermined\<close>: "OVERALL: Could not assess citation consistency because no
    reference list was detected."
  \<^item> \<open>Errors\<close>: "OVERALL: Citation-reference consistency has ERRORS. ..."
  \<^item> \<open>Good\<close>: "OVERALL: Citation-reference consistency looks GOOD. All detected
    in-text citation keys have at least one matching reference entry. Any unused
    references listed above are optional clean-up (not a formal style violation)."
\<close>

datatype verdict = Undetermined | Errors | Good

datatype error = FileNotFoundError

record report =
  citations :: "pystr list"
  cit_key_examples :: "pystr \<rightharpoonup> pystr set"
  citation_keys :: "pystr set"
  ref_lines :: "pystr list"
  ref_entries :: "ref_entry list"
  ref_keys :: "pystr set"
  missing_keys :: "pystr set"
  unused_keys :: "pystr set"
  overall :: verdict

text \<open>
  \<open>main\<close> from the text of the document to the figures and the verdict it writes into
  the report. The file is \<open>None\<close> when the path does not exist.
\<close>

definition main :: "unicode_db \<Rightarrow> document option \<Rightarrow> error + report" where
  "main U file =
     (case file of
        None \<Rightarrow> Inl FileNotFoundError
      | Some doc \<Rightarrow>
          (let full_text = extract_text_from_docx doc;
               cits = extract_citations U full_text;
               examples = build_citation_keys U cits;
               ckeys = dom examples;
               lines = extract_reference_paragraphs U doc
           in if lines = []
              then Inr \<lparr> citations = cits, cit_key_examples = examples, citation_keys = ckeys,
                         ref_lines = lines, ref_entries = [], ref_keys = {},
                         missing_keys = {}, unused_keys = {}, overall = Undetermined \<rparr>
              else
                (let entries = parse_reference_entries U lines;
                     rkeys = set (map key entries);
                     missing = ckeys - rkeys;
                     unused = rkeys - ckeys
                 in Inr \<lparr> citations = cits, cit_key_examples = examples, citation_keys = ckeys,
                           ref_lines = lines, ref_entries = entries, ref_keys = rkeys,
                           missing_keys = missing, unused_keys = unused,
                           overall = (if missing \<noteq> {} then Errors else Good) \<rparr>)))"


section \<open>Notions the properties are stated with\<close>

text \<open>Every character the pattern can consume satisfies \<open>P\<close>.\<close>

fun consumes_only :: "unicode_db \<Rightarrow> (int \<Rightarrow> bool) \<Rightarrow> rx \<Rightarrow> bool" where
  "consumes_only U P (Any is) = (\<forall>c. list_ex (\<lambda>i. in_item U i c) is \<longrightarrow> P c)"
| "consumes_only U P (Non is) = (\<forall>c. \<not> list_ex (\<lambda>i. in_item U i c) is \<longrightarrow> P c)"
| "consumes_only U P (Seq a b) = (consumes_only U P a \<and> consumes_only U P b)"
| "consumes_only U P (Opt a) = consumes_only U P a"
| "consumes_only U P (Star a) = consumes_only U P a"
| "consumes_only U P (Lazy a) = consumes_only U P a"
| "consumes_only U P (Grp n a) = consumes_only U P a"
| "consumes_only U P Eol = True"

text \<open>
  A year token occurs in the string: four decimal digits in a row (the lower-case letter
  that may follow is optional, so it adds nothing).
\<close>

fun has_year_token :: "unicode_db \<Rightarrow> pystr \<Rightarrow> bool" where
  "has_year_token U (a # b # c # d # s) =
     ((isdecimal U a \<and> isdecimal U b \<and> isdecimal U c \<and> isdecimal U d)
      \<or> has_year_token U (b # c # d # s))"
| "has_year_token U s = False"

text \<open>Neither bracket.\<close>

definition not_paren :: "int \<Rightarrow> bool" where
  "not_paren c = (c \<noteq> ord CHR ''('' \<and> c \<noteq> ord CHR '')'')"

text \<open>Every code point of the string is below 128.\<close>

definition is_ascii :: "pystr \<Rightarrow> bool" where
  "is_ascii s = list_all (\<lambda>c. c < 128) s"

text \<open>\<open>normalize_author\<close> in two halves: the text its tokens are taken from \<dots>\<close>

definition author_part :: "unicode_db \<Rightarrow> pystr \<Rightarrow> pystr" where
  "author_part U author0 =
     (let author1 = strip U author0;
          author2 = strip U (re_sub_del U et_al_rx author1)
      in if ord CHR '','' \<in> set author2
         then strip U (before_first (ord CHR '','') author2) else author2)"

text \<open>\<dots> and a token that is an initial, as the specification words it: one capital
  letter, or one capital letter and a full stop.\<close>

definition is_initial :: "pystr \<Rightarrow> bool" where
  "is_initial t =
     (case t of
        [c] \<Rightarrow> ord CHR ''A'' \<le> c \<and> c \<le> ord CHR ''Z''
      | [c, d] \<Rightarrow> ord CHR ''A'' \<le> c \<and> c \<le> ord CHR ''Z'' \<and> d = ord CHR ''.''
      | _ \<Rightarrow> False)"

text \<open>
  Deleting every occurrence of a fixed text, from left to right: the occurrences deleted
  do not overlap, and what is left is not scanned again.
\<close>

function delete_all :: "pystr \<Rightarrow> pystr \<Rightarrow> pystr" where
  "delete_all l [] = []"
| "delete_all l (c # cs) =
     (if l \<noteq> [] \<and> take (length l) (c # cs) = l
      then delete_all l (drop (length l) (c # cs))
      else c # delete_all l cs)"
  by pat_completeness auto
termination
  by (relation "measure (\<lambda>(l, s). length s)") auto

text \<open>A paragraph is the heading of the reference list.\<close>

definition is_heading :: "unicode_db \<Rightarrow> pystr \<Rightarrow> bool" where
  "is_heading U p = list_ex (\<lambda>kw. contains kw (lower U (strip U p))) heading_keywords"

text \<open>
  The locator as the specification words it: the paragraphs after the first heading,
  trimmed, without the empty ones; nothing when there is no heading.
\<close>

definition locator_spec :: "unicode_db \<Rightarrow> pystr list \<Rightarrow> pystr list" where
  "locator_spec U ps =
     (case dropWhile (\<lambda>p. \<not> is_heading U p) ps of
        [] \<Rightarrow> []
      | heading # rest \<Rightarrow> filter (\<lambda>t. t \<noteq> []) (map (strip U) rest))"

text \<open>
  A line of the reference list gives an entry: it has a year token, and the text before
  its first comma normalises to an author that is not empty.
\<close>

definition keeps :: "unicode_db \<Rightarrow> pystr \<Rightarrow> bool" where
  "keeps U line =
     (has_year_token U line
      \<and> normalize_author U (strip U (before_first (ord CHR '','') line)) \<noteq> [])"

text \<open>The pattern has no capturing group in it.\<close>

fun group_free :: "rx \<Rightarrow> bool" where
  "group_free (Any is) = True"
| "group_free (Non is) = True"
| "group_free (Seq a b) = (group_free a \<and> group_free b)"
| "group_free (Opt a) = group_free a"
| "group_free (Star a) = group_free a"
| "group_free (Lazy a) = group_free a"
| "group_free (Grp n a) = False"
| "group_free Eol = True"

section \<open>Example documents\<close>

text \<open>A reference list with one entry, and no citation of it in the text.\<close>
definition unused_only_doc :: document where
  "unused_only_doc =
     \<lparr> paragraphs = [str ''References'', str ''Duer, A. (1992). Title.''], tables = [] \<rparr>"

text \<open>The two scenarios of the specification.\<close>

definition scan_example :: pystr where
  "scan_example = str ''as shown (Duer et al., 1992; Luo, 2022) and (see discussion)''"

definition allan_example :: pystr where
  "allan_example = str ''Allan, 1999, Allan and Jones, 1999, Allan 2000a, Allan 2000b''"

text \<open>A document with no heading of a reference list.\<close>

definition no_heading_doc :: document where
  "no_heading_doc =
     \<lparr> paragraphs = [str ''Introduction'', str ''As shown (Smith, 2020).''], tables = [] \<rparr>"

text \<open>Two lines of a reference list; the first has no year in it.\<close>

definition dropped_line_example :: "pystr list" where
  "dropped_line_example = [str ''See also the appendix.'', str ''Duer, A. (1992). Title.'']"

text \<open>A citation of 2020 against a reference entry of 2020a.\<close>

definition smith_doc :: document where
  "smith_doc =
     \<lparr> paragraphs = [str ''As shown (Smith, 2020).'', str ''References'',
                      str ''Smith, J. (2020a). Title.''],
       tables = [] \<rparr>"

section \<open>Facts about the matcher\<close>

lemma in_concat_map_pair:
  "(y \<in> set (concat (map (\<lambda>(a, b). f a b) xs))) = (\<exists>a b. (a, b) \<in> set xs \<and> y \<in> set (f a b))"
  by (induction xs) auto

lemma in_map_pair:
  "((g, r) \<in> set (map (\<lambda>(g2, r2). (h g2, r2)) ys)) = (\<exists>g2. (g2, r) \<in> set ys \<and> g = h g2)"
  by (induction ys) auto

lemma ends_Seq_iff:
  "(g, r) \<in> set (ends U (Seq a b) s) \<longleftrightarrow>
   (\<exists>g1 r1 g2. (g1, r1) \<in> set (ends U a s) \<and> (g2, r) \<in> set (ends U b r1) \<and> g = g2 @ g1)"
  unfolding ends.simps(3) in_concat_map_pair in_map_pair by blast

lemma in_rounds:
  "(g, r) \<in> set (concat (map (\<lambda>(g1, r1).
                    if length r1 < length s
                    then map (\<lambda>(g2, r2). (g2 @ g1, r2)) (f r1) else []) xs)) \<longleftrightarrow>
   (\<exists>g1 r1 g2. (g1, r1) \<in> set xs \<and> length r1 < length s \<and> (g2, r) \<in> set (f r1) \<and> g = g2 @ g1)"
proof -
  have "(g, r) \<in> set (concat (map (\<lambda>(g1, r1).
                    if length r1 < length s
                    then map (\<lambda>(g2, r2). (g2 @ g1, r2)) (f r1) else []) xs)) \<longleftrightarrow>
    (\<exists>g1 r1. (g1, r1) \<in> set xs \<and>
      (g, r) \<in> set (if length r1 < length s
                    then map (\<lambda>(g2, r2). (g2 @ g1, r2)) (f r1) else []))"
    unfolding in_concat_map_pair ..
  also have "\<dots> \<longleftrightarrow> (\<exists>g1 r1 g2. (g1, r1) \<in> set xs \<and> length r1 < length s \<and>
       (g2, r) \<in> set (f r1) \<and> g = g2 @ g1)"
    by (simp only: in_map_pair split: if_split) (simp, blast)
  finally show ?thesis .
qed

lemma ends_Star_iff:
  "(g, r) \<in> set (ends U (Star a) s) \<longleftrightarrow>
   (g = [] \<and> r = s) \<or>
   (\<exists>g1 r1 g2. (g1, r1) \<in> set (ends U a s) \<and> length r1 < length s \<and>
       (g2, r) \<in> set (ends U (Star a) r1) \<and> g = g2 @ g1)"
  by (subst ends.simps(5)) (auto simp only: set_append in_rounds Un_iff list.set insert_iff empty_iff prod.inject)

lemma ends_Lazy_iff:
  "(g, r) \<in> set (ends U (Lazy a) s) \<longleftrightarrow>
   (g = [] \<and> r = s) \<or>
   (\<exists>g1 r1 g2. (g1, r1) \<in> set (ends U a s) \<and> length r1 < length s \<and>
       (g2, r) \<in> set (ends U (Lazy a) r1) \<and> g = g2 @ g1)"
  by (subst ends.simps(6)) (auto simp only: in_rounds list.set insert_iff empty_iff prod.inject)

lemma ends_Grp_iff:
  "(g, r) \<in> set (ends U (Grp n a) s) \<longleftrightarrow>
   (\<exists>g'. (g', r) \<in> set (ends U a s) \<and> g = (n, take (length s - length r) s) # g')"
proof -
  have "\<And>ys. ((g, r) \<in> set (map (\<lambda>(g2, r2). ((n, take (length s - length r2) s) # g2, r2)) ys))
     = (\<exists>g2. (g2, r) \<in> set ys \<and> g = (n, take (length s - length r) s) # g2)"
    subgoal for ys by (induction ys) auto
    done
  then show ?thesis by simp
qed

lemma ends_class_iff:
  "(g, r) \<in> set (ends U (Any is) s) \<longleftrightarrow> (\<exists>c. s = c # r \<and> list_ex (\<lambda>i. in_item U i c) is \<and> g = [])"
  "(g, r) \<in> set (ends U (Non is) s) \<longleftrightarrow> (\<exists>c. s = c # r \<and> \<not> list_ex (\<lambda>i. in_item U i c) is \<and> g = [])"
  by (cases s; auto)+

lemma ends_consumes:
  "consumes_only U P p \<Longrightarrow> (g, r) \<in> set (ends U p s) \<Longrightarrow> \<exists>u. s = u @ r \<and> list_all P u"
proof (induction U p s arbitrary: g r rule: ends.induct)
  case (1 U "is" s)
  then show ?case unfolding ends_class_iff by auto
next
  case (2 U "is" s)
  then show ?case unfolding ends_class_iff by auto
next
  case (3 U a b s)
  from "3.prems"(2) obtain g1 r1 g2 where
    a: "(g1, r1) \<in> set (ends U a s)" and b: "(g2, r) \<in> set (ends U b r1)"
    unfolding ends_Seq_iff by blast
  from "3.prems"(1) have ca: "consumes_only U P a" and cb: "consumes_only U P b" by simp_all
  from "3.IH"(1) [OF ca a] obtain u1 where u1: "s = u1 @ r1" "list_all P u1" by blast
  from "3.IH"(2) [OF a refl cb b] obtain u2 where u2: "r1 = u2 @ r" "list_all P u2" by blast
  from u1 u2 have "s = (u1 @ u2) @ r \<and> list_all P (u1 @ u2)" by simp
  then show ?case by blast
next
  case (4 U a s)
  from "4.prems" have "(g, r) \<in> set (ends U a s) \<or> r = s" by auto
  then show ?case
  proof
    assume "(g, r) \<in> set (ends U a s)"
    with "4.IH" "4.prems"(1) show ?thesis by simp
  next
    assume "r = s"
    then have "s = [] @ r \<and> list_all P []" by simp
    then show ?thesis by blast
  qed
next
  case (5 U a s)
  from "5.prems"(2) consider "r = s" |
    g1 r1 g2 where "(g1, r1) \<in> set (ends U a s)" "length r1 < length s"
      "(g2, r) \<in> set (ends U (Star a) r1)"
    unfolding ends_Star_iff [of g r U a s] by blast
  then show ?case
  proof cases
    case 1
    then have "s = [] @ r \<and> list_all P []" by simp
    then show ?thesis by blast
  next
    case 2
    from "5.prems"(1) have ca: "consumes_only U P a" by simp
    from "5.IH"(1) [OF ca 2(1)] obtain u1 where u1: "s = u1 @ r1" "list_all P u1" by blast
    from "5.IH"(2) [OF 2(1) refl 2(2) "5.prems"(1) 2(3)]
    obtain u2 where u2: "r1 = u2 @ r" "list_all P u2" by blast
    from u1 u2 have "s = (u1 @ u2) @ r \<and> list_all P (u1 @ u2)" by simp
    then show ?thesis by blast
  qed
next
  case (6 U a s)
  from "6.prems"(2) consider "r = s" |
    g1 r1 g2 where "(g1, r1) \<in> set (ends U a s)" "length r1 < length s"
      "(g2, r) \<in> set (ends U (Lazy a) r1)"
    unfolding ends_Lazy_iff [of g r U a s] by blast
  then show ?case
  proof cases
    case 1
    then have "s = [] @ r \<and> list_all P []" by simp
    then show ?thesis by blast
  next
    case 2
    from "6.prems"(1) have ca: "consumes_only U P a" by simp
    from "6.IH"(1) [OF ca 2(1)] obtain u1 where u1: "s = u1 @ r1" "list_all P u1" by blast
    from "6.IH"(2) [OF 2(1) refl 2(2) "6.prems"(1) 2(3)]
    obtain u2 where u2: "r1 = u2 @ r" "list_all P u2" by blast
    from u1 u2 have "s = (u1 @ u2) @ r \<and> list_all P (u1 @ u2)" by simp
    then show ?thesis by blast
  qed
next
  case (7 U n a s)
  from "7.prems"(2) obtain g' where "(g', r) \<in> set (ends U a s)"
    unfolding ends_Grp_iff by blast
  with "7.IH" "7.prems"(1) show ?case by simp
next
  case (8 U s)
  then have "s = [] @ r \<and> list_all P []" by (simp split: if_splits)
  then show ?case by blast
qed

lemma ends_split: "(g, r) \<in> set (ends U p s) \<Longrightarrow> \<exists>u. s = u @ r"
proof -
  assume a: "(g, r) \<in> set (ends U p s)"
  have "consumes_only U (\<lambda>c. True) p" by (induction p) simp_all
  from ends_consumes [OF this a] show ?thesis by blast
qed

section \<open>The verdict of the report\<close>

lemma unused_only_citations:
  "extract_citations ascii_db (extract_text_from_docx unused_only_doc) = [str ''1992'']"
  by code_simp

lemma unused_only_no_pair: "finditer ascii_db author_year_rx (str ''1992'') = []"
  by code_simp

lemma unused_only_lines:
  "extract_reference_paragraphs ascii_db unused_only_doc = [str ''Duer, A. (1992). Title.'']"
  by code_simp

lemma unused_only_keys:
  "map key (parse_reference_entries ascii_db [str ''Duer, A. (1992). Title.'']) = [str ''duer|1992'']"
  by code_simp

lemma unused_only_examples: "build_citation_keys ascii_db [str ''1992''] = Map.empty"
  by (simp add: build_citation_keys_def unused_only_no_pair)

lemma main_fields:
  assumes "main U (Some doc) = Inr r"
  shows "overall r = overall (projr (main U (Some doc)))"
    and "missing_keys r = missing_keys (projr (main U (Some doc)))"
    and "unused_keys r = unused_keys (projr (main U (Some doc)))"
    and "ref_lines r = ref_lines (projr (main U (Some doc)))"
  using assms by simp_all

text \<open>
  C2, as the code has it: when a reference list was found, the last line of the report
  says the consistency looks good exactly when no citation key is missing. Unused
  reference entries do not change it.
\<close>

theorem verdict_good_iff_no_missing:
  assumes "main U (Some doc) = Inr r" and "ref_lines r \<noteq> []"
  shows "(overall r = Good) = (missing_keys r = {})"
proof (cases "extract_reference_paragraphs U doc = []")
  case True
  then have "ref_lines r = []"
    unfolding main_fields(4) [OF assms(1)] by (simp add: main_def Let_def)
  with assms(2) show ?thesis by simp
next
  case False
  then show ?thesis
    unfolding main_fields(1,2) [OF assms(1)] by (simp add: main_def Let_def)
qed

text \<open>
  C2 as stated fails: with one reference entry that the text never cites, a reference
  list was found and \<open>unused\<close> is not empty, yet the verdict is the good one.
\<close>

theorem verdict_good_with_unused_counterexample:
  "ref_lines (projr (main ascii_db (Some unused_only_doc))) \<noteq> []
   \<and> overall (projr (main ascii_db (Some unused_only_doc))) = Good
   \<and> missing_keys (projr (main ascii_db (Some unused_only_doc))) = {}
   \<and> unused_keys (projr (main ascii_db (Some unused_only_doc))) = {str ''duer|1992''}"
  unfolding main_def Let_def option.case unused_only_citations unused_only_lines
    unused_only_examples unused_only_keys
  by (simp only: list.simps if_False sum.sel report.select_convs dom_empty Diff_empty
        empty_Diff list.set simp_thms if_True)

lemma main_unused_only:
  "main ascii_db (Some unused_only_doc) = Inr (projr (main ascii_db (Some unused_only_doc)))"
  by (simp add: main_def Let_def)

theorem verdict_good_iff_no_missing_witness:
  "main ascii_db (Some unused_only_doc) = Inr (projr (main ascii_db (Some unused_only_doc)))
   \<and> ref_lines (projr (main ascii_db (Some unused_only_doc))) \<noteq> []
   \<and> ((overall (projr (main ascii_db (Some unused_only_doc))) = Good)
        = (missing_keys (projr (main ascii_db (Some unused_only_doc))) = {}))"
proof -
  have l: "ref_lines (projr (main ascii_db (Some unused_only_doc))) \<noteq> []"
    unfolding main_def Let_def option.case unused_only_citations unused_only_lines
      unused_only_examples unused_only_keys
    by (simp only: list.simps if_False sum.sel report.select_convs simp_thms)
  show ?thesis
    using verdict_good_iff_no_missing [OF main_unused_only l] main_unused_only l by blast
qed

section \<open>Facts about the scans, year tokens and \<open>strip\<close>\<close>

lemma finditer_sound:
  "(g, m) \<in> set (finditer U p s) \<Longrightarrow>
   \<exists>pre r. s = pre @ m @ r \<and> (g, r) \<in> set (ends U p (m @ r))"
proof (induction U p s rule: finditer.induct)
  case (1 U p)
  then show ?case by simp
next
  case (2 U p c cs)
  show ?case
  proof (cases "ends U p (c # cs)")
    case Nil
    with "2.prems" have "(g, m) \<in> set (finditer U p cs)" by simp
    from "2.IH"(1) [OF Nil this] obtain pre r where
      "cs = pre @ m @ r" "(g, r) \<in> set (ends U p (m @ r))" by blast
    then have "c # cs = (c # pre) @ m @ r \<and> (g, r) \<in> set (ends U p (m @ r))" by simp
    then show ?thesis by blast
  next
    case (Cons x xs)
    obtain g0 r0 where x: "x = (g0, r0)" by (cases x)
    have mem: "(g0, r0) \<in> set (ends U p (c # cs))" using Cons x by simp
    from ends_split [OF mem] obtain u where u: "c # cs = u @ r0" by blast
    show ?thesis
    proof (cases "length r0 < length (c # cs)")
      case True
      with "2.prems" Cons x have
        "(g, m) = (g0, take (length (c # cs) - length r0) (c # cs)) \<or> (g, m) \<in> set (finditer U p r0)"
        by simp
      then show ?thesis
      proof
        assume "(g, m) = (g0, take (length (c # cs) - length r0) (c # cs))"
        then have "g = g0" and "m = u" using u by simp_all
        with mem u have "c # cs = [] @ m @ r0 \<and> (g, r0) \<in> set (ends U p (m @ r0))" by simp
        then show ?thesis by blast
      next
        assume "(g, m) \<in> set (finditer U p r0)"
        from "2.IH"(2) [OF Cons x [symmetric] True this] obtain pre r where
          "r0 = pre @ m @ r" "(g, r) \<in> set (ends U p (m @ r))" by blast
        with u have "c # cs = (u @ pre) @ m @ r \<and> (g, r) \<in> set (ends U p (m @ r))" by simp
        then show ?thesis by blast
      qed
    next
      case False
      with "2.prems" Cons x have "(g, m) \<in> set (finditer U p cs)" by simp
      from "2.IH"(3) [OF Cons x [symmetric] False this] obtain pre r where
        "cs = pre @ m @ r" "(g, r) \<in> set (ends U p (m @ r))" by blast
      then have "c # cs = (c # pre) @ m @ r \<and> (g, r) \<in> set (ends U p (m @ r))" by simp
      then show ?thesis by blast
    qed
  qed
qed

lemma has_year_tokenI:
  "isdecimal U a \<Longrightarrow> isdecimal U b \<Longrightarrow> isdecimal U c \<Longrightarrow> isdecimal U d \<Longrightarrow>
   has_year_token U (u @ a # b # c # d # v)"
proof (induction u)
  case Nil
  then show ?case by simp
next
  case (Cons x u)
  then have h: "has_year_token U (u @ a # b # c # d # v)" by simp
  obtain e f g h' w where "u @ a # b # c # d # v = e # f # g # w \<and> w = h' # tl w"
    by (cases u; cases "tl u"; cases "tl (tl u)"; cases "tl (tl (tl u))"; simp)
  then obtain w where w: "u @ a # b # c # d # v = e # f # g # h' # w" by metis
  have "has_year_token U (x # e # f # g # h' # w)" using h unfolding w by simp
  then show ?case using w by simp
qed

lemma has_year_tokenD:
  "has_year_token U s \<Longrightarrow>
   \<exists>u a b c d v. s = u @ a # b # c # d # v \<and> isdecimal U a \<and> isdecimal U b \<and> isdecimal U c \<and> isdecimal U d"
proof (induction U s rule: has_year_token.induct)
  case (1 U a b c d s)
  show ?case
  proof (cases "isdecimal U a \<and> isdecimal U b \<and> isdecimal U c \<and> isdecimal U d")
    case True
    then have "a # b # c # d # s = [] @ a # b # c # d # s \<and> isdecimal U a \<and> isdecimal U b \<and> isdecimal U c \<and> isdecimal U d"
      by simp
    then show ?thesis by blast
  next
    case False
    with "1.prems" have "has_year_token U (b # c # d # s)" by auto
    from "1.IH" [OF this] obtain u a' b' c' d' v where
      "b # c # d # s = u @ a' # b' # c' # d' # v" and
      dg: "isdecimal U a'" "isdecimal U b'" "isdecimal U c'" "isdecimal U d'" by blast
    then have "a # b # c # d # s = (a # u) @ a' # b' # c' # d' # v" by simp
    with dg show ?thesis by blast
  qed
qed simp_all

lemma dropWhile_keeps:
  "\<not> P x \<Longrightarrow> \<exists>u'. dropWhile P (u @ x # w) = u' @ x # w"
proof (induction u)
  case Nil
  then have "dropWhile P ([] @ x # w) = [] @ x # w" by simp
  then show ?case by blast
next
  case (Cons y u)
  show ?case
  proof (cases "P y")
    case True
    with Cons show ?thesis by simp
  next
    case False
    then have "dropWhile P ((y # u) @ x # w) = (y # u) @ x # w" by simp
    then show ?thesis by blast
  qed
qed

lemma strip_keeps:
  assumes "\<not> isspace U x" and "\<not> isspace U y"
  shows "\<exists>u' v'. strip U (u @ x # m @ y # v) = u' @ x # m @ y # v'"
proof -
  from dropWhile_keeps [of "isspace U" x u "m @ y # v", OF assms(1)]
  obtain u' where 1: "dropWhile (isspace U) (u @ x # m @ y # v) = u' @ x # m @ y # v" by blast
  have "rev (u' @ x # m @ y # v) = rev v @ y # (rev m @ x # rev u')" by simp
  with dropWhile_keeps [of "isspace U" y "rev v" "rev m @ x # rev u'", OF assms(2)]
  obtain w where 2: "dropWhile (isspace U) (rev (u' @ x # m @ y # v)) = w @ y # (rev m @ x # rev u')"
    by metis
  have "strip U (u @ x # m @ y # v) = u' @ x # m @ y # rev w"
    unfolding strip_def 1 2 by simp
  then show ?thesis by blast
qed

lemma strip_has_year_token:
  assumes ns: "\<And>c. isdecimal U c \<Longrightarrow> \<not> isspace U c" and "has_year_token U s"
  shows "has_year_token U (strip U s)"
proof -
  from has_year_tokenD [OF assms(2)] obtain u a b c d v where
    s: "s = u @ a # b # c # d # v" and
    dg: "isdecimal U a" "isdecimal U b" "isdecimal U c" "isdecimal U d" by blast
  from strip_keeps [of U a d u "[b, c]" v] ns dg obtain u' v' where
    "strip U (u @ a # [b, c] @ d # v) = u' @ a # [b, c] @ d # v'" by blast
  then have "strip U s = u' @ a # b # c # d # v'" unfolding s by simp
  with has_year_tokenI [OF dg] show ?thesis by simp
qed

lemma set_strip: "x \<in> set (strip U s) \<Longrightarrow> x \<in> set s"
proof -
  assume "x \<in> set (strip U s)"
  then have "x \<in> set (dropWhile (isspace U) (rev (dropWhile (isspace U) s)))"
    by (simp add: strip_def)
  then have "x \<in> set (rev (dropWhile (isspace U) s))" by (rule set_dropWhileD)
  then have "x \<in> set (dropWhile (isspace U) s)" by simp
  then show ?thesis by (rule set_dropWhileD)
qed

lemma strip_last: "strip U s \<noteq> [] \<Longrightarrow> \<not> isspace U (last (strip U s))"
proof -
  assume a: "strip U s \<noteq> []"
  let ?d = "dropWhile (isspace U) (rev (dropWhile (isspace U) s))"
  from a have ne: "?d \<noteq> []" by (simp add: strip_def)
  have "last (strip U s) = hd ?d" unfolding strip_def using ne by (simp add: last_rev)
  moreover have "\<not> isspace U (hd ?d)" using ne by (rule hd_dropWhile)
  ultimately show ?thesis by simp
qed

lemma strip_hd: "strip U s \<noteq> [] \<Longrightarrow> \<not> isspace U (hd (strip U s))"
proof -
  assume a: "strip U s \<noteq> []"
  let ?x = "dropWhile (isspace U) s"
  let ?d = "dropWhile (isspace U) (rev ?x)"
  from a have ne: "?d \<noteq> []" by (simp add: strip_def)
  have xne: "?x \<noteq> []"
  proof
    assume e: "?x = []"
    have "?d = []" unfolding e by simp
    with ne show False ..
  qed
  have "hd (strip U s) = last ?d" unfolding strip_def using ne by (simp add: hd_rev)
  also have "rev ?x = takeWhile (isspace U) (rev ?x) @ ?d" by simp
  then have "last (rev ?x) = last ?d" using ne by (metis last_appendR)
  then have "last ?d = hd ?x" using xne by (simp add: last_rev)
  finally have "hd (strip U s) = hd ?x" .
  moreover have "\<not> isspace U (hd ?x)" using xne by (rule hd_dropWhile)
  ultimately show ?thesis by simp
qed

lemma ord_values:
  "ord CHR ''('' = 40" "ord CHR '')'' = 41" "ord CHR ''0'' = 48" "ord CHR ''9'' = 57"
  "ord CHR ''a'' = 97" "ord CHR ''z'' = 122" "ord CHR ''A'' = 65" "ord CHR ''Z'' = 90"
  "ord CHR '';'' = 59" "ord CHR '','' = 44" "ord CHR ''.'' = 46" "ord CHR ''-'' = 45"
  "ord (CHR 0x27) = 39" "ord (CHR 0x0A) = 10" "ord CHR '' '' = 32" "ord CHR ''|'' = 124"
  by (simp_all add: ord_def)

lemma python_digit:
  "python_tables U \<Longrightarrow> isdecimal U c \<Longrightarrow> c < 128 \<Longrightarrow> 48 \<le> c \<and> c \<le> 57"
  by (simp add: python_tables_def ascii_isdigit_def ord_values)

lemma digit_not_paren:
  assumes "python_tables U" and "isdecimal U c"
  shows "c \<noteq> 40 \<and> c \<noteq> 41"
proof (cases "c < 128")
  case True
  from python_digit [OF assms True] show ?thesis by simp
next
  case False
  then show ?thesis by simp
qed

lemma ends_lit_iff: "(g, r) \<in> set (ends U (lit c) s) \<longleftrightarrow> (s = ord c # r \<and> g = [])"
  unfolding lit_def ends_class_iff by auto

lemma ends_Opt_iff:
  "(g, r) \<in> set (ends U (Opt a) s) \<longleftrightarrow> (g, r) \<in> set (ends U a s) \<or> (g = [] \<and> r = s)"
  by auto

lemma ends_year_rx:
  assumes "(g, r) \<in> set (ends U year_rx s)"
  shows "\<exists>a b c d l. s = a # b # c # d # l @ r \<and>
           isdecimal U a \<and> isdecimal U b \<and> isdecimal U c \<and> isdecimal U d"
proof -
  from assms obtain g1 r1 g2 r2 g3 r3 g4 r4 g5 where
    1: "(g1, r1) \<in> set (ends U (Any [Dig]) s)" and
    2: "(g2, r2) \<in> set (ends U (Any [Dig]) r1)" and
    3: "(g3, r3) \<in> set (ends U (Any [Dig]) r2)" and
    4: "(g4, r4) \<in> set (ends U (Any [Dig]) r3)" and
    5: "(g5, r) \<in> set (ends U (Opt (Any [Rng (ord CHR ''a'') (ord CHR ''z'')])) r4)"
    unfolding year_rx_def seqs.simps ends_Seq_iff by blast
  from 5 have "\<exists>l. r4 = l @ r" unfolding ends_Opt_iff ends_class_iff by auto
  then obtain l where "r4 = l @ r" ..
  with 1 2 3 4 show ?thesis unfolding ends_class_iff by auto
qed

lemma consumes_no_paren: "consumes_only U not_paren no_paren"
  by (simp add: no_paren_def not_paren_def)

lemma consumes_year_rx: "python_tables U \<Longrightarrow> consumes_only U not_paren year_rx"
  using digit_not_paren [of U]
  by (auto simp: year_rx_def not_paren_def ord_values)

lemma citation_match_shape:
  assumes pt: "python_tables U" and m: "(g, r) \<in> set (ends U citation_rx s)"
  shows "\<exists>u. s = ord CHR ''('' # u @ ord CHR '')'' # r \<and> list_all not_paren u \<and> has_year_token U u"
proof -
  let ?grp = "seqs (Any [Ch (ord CHR '';''), Ch (ord CHR '','')])
                [Star no_paren, year_rx, Star no_paren]"
  from m obtain g1 r1 g2 r2 g3 r3 g4 r4 g5 r5 g6 where
    1: "(g1, r1) \<in> set (ends U (lit CHR ''('') s)" and
    2: "(g2, r2) \<in> set (ends U (Lazy no_paren) r1)" and
    3: "(g3, r3) \<in> set (ends U year_rx r2)" and
    4: "(g4, r4) \<in> set (ends U (Lazy no_paren) r3)" and
    5: "(g5, r5) \<in> set (ends U (Star ?grp) r4)" and
    6: "(g6, r) \<in> set (ends U (lit CHR '')'') r5)"
    unfolding citation_rx_def seqs.simps ends_Seq_iff by blast
  have cy: "consumes_only U not_paren year_rx" by (rule consumes_year_rx [OF pt])
  have cg: "consumes_only U not_paren (Star ?grp)"
    using cy consumes_no_paren [of U] by (simp add: not_paren_def ord_values)
  from 1 have s: "s = ord CHR ''('' # r1" unfolding ends_lit_iff by simp
  from ends_consumes [OF _ 2] consumes_no_paren
  obtain u1 where u1: "r1 = u1 @ r2" "list_all not_paren u1" by auto
  from ends_consumes [OF cy 3] obtain y where y: "r2 = y @ r3" "list_all not_paren y" by blast
  from ends_year_rx [OF 3] obtain a b c d l where
    t: "r2 = a # b # c # d # l @ r3" and
    dg: "isdecimal U a" "isdecimal U b" "isdecimal U c" "isdecimal U d" by blast
  from y(1) t have yy: "y = a # b # c # d # l" by simp
  from ends_consumes [OF _ 4] consumes_no_paren
  obtain u2 where u2: "r3 = u2 @ r4" "list_all not_paren u2" by auto
  from ends_consumes [OF cg 5] obtain u3 where u3: "r4 = u3 @ r5" "list_all not_paren u3" by blast
  from 6 have r5: "r5 = ord CHR '')'' # r" unfolding ends_lit_iff by simp
  let ?u = "u1 @ y @ u2 @ u3"
  have shape: "s = ord CHR ''('' # ?u @ ord CHR '')'' # r"
    unfolding s u1(1) y(1) u2(1) u3(1) r5 by simp
  have np: "list_all not_paren ?u" using u1(2) y(2) u2(2) u3(2) by simp
  have "?u = u1 @ a # b # c # d # (l @ u2 @ u3)" unfolding yy by simp
  with has_year_tokenI [OF dg, of u1 "l @ u2 @ u3"] have "has_year_token U ?u" by simp
  with shape np show ?thesis by blast
qed

section \<open>The citation candidates\<close>

lemma python_tables_ascii: "python_tables ascii_db"
  by (simp add: python_tables_def ascii_db_def ascii_isdigit_def ascii_isspace_def ord_values)

lemma python_digit_not_space: "python_tables U \<Longrightarrow> isdecimal U c \<Longrightarrow> \<not> isspace U c"
  by (simp add: python_tables_def)

lemma scan_example_ascii:
  "extract_citations ascii_db
     (str ''as shown (Duer et al., 1992; Luo, 2022) and (see discussion)'')
   = [str ''Duer et al., 1992; Luo, 2022'']"
  by code_simp

text \<open>
  C5: whatever the text, each candidate the scanner returns is the inside of a bracket of
  the text with the white space around it stripped, has a year token in it, has no
  bracket in it, and neither starts nor ends with white space.
\<close>

theorem extract_citations_invariant:
  assumes "python_tables U" and "c \<in> set (extract_citations U text)"
  shows "(\<exists>pre u post. text = pre @ ord CHR ''('' # u @ ord CHR '')'' # post \<and> c = strip U u)
         \<and> has_year_token U c
         \<and> ord CHR ''('' \<notin> set c \<and> ord CHR '')'' \<notin> set c
         \<and> c \<noteq> [] \<and> \<not> isspace U (hd c) \<and> \<not> isspace U (last c)"
proof -
  from assms(2) obtain g m where
    gm: "(g, m) \<in> set (finditer U citation_rx text)" and c: "c = strip U (butlast (tl m))"
    by (auto simp: extract_citations_def)
  from finditer_sound [OF gm] obtain pre r where
    tx: "text = pre @ m @ r" and e: "(g, r) \<in> set (ends U citation_rx (m @ r))" by blast
  from citation_match_shape [OF assms(1) e] obtain u where
    u: "m @ r = ord CHR ''('' # u @ ord CHR '')'' # r" and np: "list_all not_paren u"
    and hy: "has_year_token U u" by blast
  from u have m: "m = ord CHR ''('' # u @ [ord CHR '')'']" by simp
  then have cu: "c = strip U u" unfolding c by (simp add: butlast_append)
  have 1: "\<exists>pre u post. text = pre @ ord CHR ''('' # u @ ord CHR '')'' # post \<and> c = strip U u"
    using tx m cu by auto
  have 2: "has_year_token U c"
    unfolding cu using python_digit_not_space [OF assms(1)] hy by (rule strip_has_year_token)
  have 3: "ord CHR ''('' \<notin> set c \<and> ord CHR '')'' \<notin> set c"
    using np set_strip [of _ U u] unfolding cu list_all_iff not_paren_def by blast
  from 2 have 4: "c \<noteq> []" by auto
  from 4 have 5: "\<not> isspace U (hd c)" unfolding cu by (rule strip_hd)
  from 4 have 6: "\<not> isspace U (last c)" unfolding cu by (rule strip_last)
  from 1 2 3 4 5 6 show ?thesis by blast
qed

theorem extract_citations_invariant_witness:
  "python_tables ascii_db
   \<and> str ''Duer et al., 1992; Luo, 2022''
       \<in> set (extract_citations ascii_db
                (str ''as shown (Duer et al., 1992; Luo, 2022) and (see discussion)''))
   \<and> has_year_token ascii_db (str ''Duer et al., 1992; Luo, 2022'')
   \<and> ord CHR ''('' \<notin> set (str ''Duer et al., 1992; Luo, 2022'')
   \<and> ord CHR '')'' \<notin> set (str ''Duer et al., 1992; Luo, 2022'')
   \<and> \<not> isspace ascii_db (hd (str ''Duer et al., 1992; Luo, 2022''))
   \<and> \<not> isspace ascii_db (last (str ''Duer et al., 1992; Luo, 2022''))"
proof -
  have m: "str ''Duer et al., 1992; Luo, 2022''
       \<in> set (extract_citations ascii_db
                (str ''as shown (Duer et al., 1992; Luo, 2022) and (see discussion)''))"
    unfolding scan_example_ascii by simp
  from extract_citations_invariant [OF python_tables_ascii m] python_tables_ascii m
  show ?thesis by blast
qed

section \<open>On ASCII text the interpreter's tables are the ASCII ones\<close>

text \<open>
  The functions read the tables only at characters of their input, so on an all-ASCII
  input they compute what they compute with the ASCII tables.
\<close>

lemma pt_space: "python_tables U \<Longrightarrow> c < 128 \<Longrightarrow> isspace U c = isspace ascii_db c"
  by (simp add: python_tables_def ascii_db_def)

lemma pt_digit: "python_tables U \<Longrightarrow> c < 128 \<Longrightarrow> isdecimal U c = isdecimal ascii_db c"
  by (simp add: python_tables_def ascii_db_def)

lemma pt_lower: "python_tables U \<Longrightarrow> is_ascii s \<Longrightarrow> lower U s = lower ascii_db s"
  by (simp add: python_tables_def ascii_db_def is_ascii_def)

lemma is_ascii_simps [simp]:
  "is_ascii []"
  "is_ascii (c # s) = (c < 128 \<and> is_ascii s)"
  "is_ascii (s @ t) = (is_ascii s \<and> is_ascii t)"
  "is_ascii (rev s) = is_ascii s"
  by (simp_all add: is_ascii_def)

lemma is_ascii_sub: "is_ascii s \<Longrightarrow> set t \<subseteq> set s \<Longrightarrow> is_ascii t"
  unfolding is_ascii_def list_all_iff by blast

lemma is_ascii_parts:
  "is_ascii s \<Longrightarrow> is_ascii (dropWhile P s)"
  "is_ascii s \<Longrightarrow> is_ascii (takeWhile P s)"
  "is_ascii s \<Longrightarrow> is_ascii (take n s)"
  "is_ascii s \<Longrightarrow> is_ascii (drop n s)"
  "is_ascii s \<Longrightarrow> is_ascii (tl s)"
  "is_ascii s \<Longrightarrow> is_ascii (butlast s)"
  "is_ascii s \<Longrightarrow> is_ascii (filter P s)"
proof -
  assume a: "is_ascii s"
  show "is_ascii (dropWhile P s)" by (rule is_ascii_sub [OF a]) (auto dest: set_dropWhileD)
  show "is_ascii (takeWhile P s)" by (rule is_ascii_sub [OF a]) (auto dest: set_takeWhileD)
  show "is_ascii (take n s)" by (rule is_ascii_sub [OF a]) (rule set_take_subset)
  show "is_ascii (drop n s)" by (rule is_ascii_sub [OF a]) (rule set_drop_subset)
  show "is_ascii (tl s)" using a by (cases s) simp_all
  show "is_ascii (butlast s)" by (rule is_ascii_sub [OF a]) (auto dest: in_set_butlastD)
  show "is_ascii (filter P s)" by (rule is_ascii_sub [OF a]) auto
qed

lemma in_item_ascii:
  "python_tables U \<Longrightarrow> c < 128 \<Longrightarrow> in_item U i c = in_item ascii_db i c"
  by (cases i) (simp_all add: pt_space pt_digit)

lemma ends_rest_ascii: "(g, r) \<in> set (ends U p s) \<Longrightarrow> is_ascii s \<Longrightarrow> is_ascii r"
proof -
  assume "(g, r) \<in> set (ends U p s)" and a: "is_ascii s"
  from ends_split [OF this(1)] obtain u where "s = u @ r" ..
  with a show ?thesis by simp
qed

lemma ends_ascii:
  "python_tables U \<Longrightarrow> is_ascii s \<Longrightarrow> ends U p s = ends ascii_db p s"
proof (induction U p s rule: ends.induct)
  case (1 U "is" s)
  then show ?case by (cases s) (simp_all add: in_item_ascii)
next
  case (2 U "is" s)
  then show ?case by (cases s) (simp_all add: in_item_ascii)
next
  case (3 U a b s)
  let ?F = "\<lambda>V. (\<lambda>(g1, r1). map (\<lambda>(g2, r2). (g2 @ g1, r2)) (ends V b r1))"
  have a: "ends U a s = ends ascii_db a s" using 3 by simp
  have eq: "map (?F U) (ends ascii_db a s) = map (?F ascii_db) (ends ascii_db a s)"
  proof (rule map_cong [OF refl])
    fix x assume x: "x \<in> set (ends ascii_db a s)"
    obtain g1 r1 where xx: "x = (g1, r1)" by (cases x)
    from x xx a have m: "(g1, r1) \<in> set (ends U a s)" by simp
    from "3.IH"(2) [OF m refl "3.prems"(1) ends_rest_ascii [OF m "3.prems"(2)]]
    show "?F U x = ?F ascii_db x" unfolding xx by simp
  qed
  show ?case by (simp only: ends.simps(3) a eq)
next
  case (4 U a s)
  then show ?case by simp
next
  case (5 U a s)
  let ?F = "\<lambda>V. (\<lambda>(g1, r1). if length r1 < length s
                    then map (\<lambda>(g2, r2). (g2 @ g1, r2)) (ends V (Star a) r1) else [])"
  have a: "ends U a s = ends ascii_db a s" using 5 by simp
  have eq: "map (?F U) (ends ascii_db a s) = map (?F ascii_db) (ends ascii_db a s)"
  proof (rule map_cong [OF refl])
    fix x assume x: "x \<in> set (ends ascii_db a s)"
    obtain g1 r1 where xx: "x = (g1, r1)" by (cases x)
    from x xx a have m: "(g1, r1) \<in> set (ends U a s)" by simp
    show "?F U x = ?F ascii_db x"
      unfolding xx using "5.IH"(2) [OF m refl _ "5.prems"(1) ends_rest_ascii [OF m "5.prems"(2)]]
      by simp
  qed
  show ?case by (simp only: ends.simps(5) [of U a s] ends.simps(5) [of ascii_db a s] a eq)
next
  case (6 U a s)
  let ?F = "\<lambda>V. (\<lambda>(g1, r1). if length r1 < length s
                    then map (\<lambda>(g2, r2). (g2 @ g1, r2)) (ends V (Lazy a) r1) else [])"
  have a: "ends U a s = ends ascii_db a s" using 6 by simp
  have eq: "map (?F U) (ends ascii_db a s) = map (?F ascii_db) (ends ascii_db a s)"
  proof (rule map_cong [OF refl])
    fix x assume x: "x \<in> set (ends ascii_db a s)"
    obtain g1 r1 where xx: "x = (g1, r1)" by (cases x)
    from x xx a have m: "(g1, r1) \<in> set (ends U a s)" by simp
    show "?F U x = ?F ascii_db x"
      unfolding xx using "6.IH"(2) [OF m refl _ "6.prems"(1) ends_rest_ascii [OF m "6.prems"(2)]]
      by simp
  qed
  show ?case by (simp only: ends.simps(6) [of U a s] ends.simps(6) [of ascii_db a s] a eq)
next
  case (7 U n a s)
  then show ?case by simp
next
  case (8 U s)
  then show ?case by simp
qed

lemma space_cong:
  assumes "python_tables U" and "is_ascii s"
  shows "dropWhile (isspace U) s = dropWhile (isspace ascii_db) s"
    and "takeWhile (\<lambda>x. \<not> isspace U x) s = takeWhile (\<lambda>x. \<not> isspace ascii_db x) s"
    and "dropWhile (\<lambda>x. \<not> isspace U x) s = dropWhile (\<lambda>x. \<not> isspace ascii_db x) s"
proof -
  have e: "\<And>x. x \<in> set s \<Longrightarrow> isspace U x = isspace ascii_db x"
    using assms unfolding is_ascii_def list_all_iff by (simp add: pt_space)
  show "dropWhile (isspace U) s = dropWhile (isspace ascii_db) s"
    by (rule dropWhile_cong [OF refl]) (rule e)
  show "takeWhile (\<lambda>x. \<not> isspace U x) s = takeWhile (\<lambda>x. \<not> isspace ascii_db x) s"
    by (rule takeWhile_cong [OF refl]) (simp add: e)
  show "dropWhile (\<lambda>x. \<not> isspace U x) s = dropWhile (\<lambda>x. \<not> isspace ascii_db x) s"
    by (rule dropWhile_cong [OF refl]) (simp add: e)
qed

lemma strip_ascii:
  assumes "python_tables U" and "is_ascii s"
  shows "strip U s = strip ascii_db s"
proof -
  have 1: "dropWhile (isspace U) s = dropWhile (isspace ascii_db) s"
    by (rule space_cong(1) [OF assms])
  have "is_ascii (rev (dropWhile (isspace ascii_db) s))"
    using assms(2) by (simp add: is_ascii_parts)
  from space_cong(1) [OF assms(1) this] show ?thesis unfolding strip_def 1 by simp
qed

lemma is_ascii_strip: "is_ascii s \<Longrightarrow> is_ascii (strip U s)"
  by (rule is_ascii_sub) (auto dest: set_strip)

lemma split_ws_ascii:
  "python_tables U \<Longrightarrow> is_ascii s \<Longrightarrow> split_ws U s = split_ws ascii_db s"
proof (induction U s rule: split_ws.induct)
  case (1 U s)
  have d: "dropWhile (isspace U) s = dropWhile (isspace ascii_db) s"
    by (rule space_cong(1) [OF "1.prems"])
  show ?case
  proof (cases "dropWhile (isspace ascii_db) s")
    case Nil
    show ?thesis
      unfolding split_ws.simps [of U s] split_ws.simps [of ascii_db s] d Nil by simp
  next
    case (Cons c cs)
    have "is_ascii (c # cs)" using "1.prems"(2) Cons [symmetric] by (simp add: is_ascii_parts)
    then have cs: "is_ascii cs" by simp
    have "split_ws U (dropWhile (\<lambda>x. \<not> isspace U x) cs)
        = split_ws ascii_db (dropWhile (\<lambda>x. \<not> isspace U x) cs)"
      using "1.IH" [of c cs] d Cons "1.prems"(1) cs by (simp add: is_ascii_parts)
    then show ?thesis
      unfolding split_ws.simps [of U s] split_ws.simps [of ascii_db s] d Cons
      by (simp add: space_cong(2,3) [OF "1.prems"(1) cs])
  qed
qed

lemma split_ws_tokens:
  "t \<in> set (split_ws U s) \<Longrightarrow> t \<noteq> [] \<and> set t \<subseteq> set s \<and> (\<forall>c\<in>set t. \<not> isspace U c)"
proof (induction U s rule: split_ws.induct)
  case (1 U s)
  show ?case
  proof (cases "dropWhile (isspace U) s")
    case Nil
    with "1.prems" show ?thesis unfolding split_ws.simps [of U s] by simp
  next
    case (Cons c cs)
    have sub: "set (c # cs) \<subseteq> set s"
      using set_dropWhileD [of _ "isspace U" s] unfolding Cons by blast
    have c: "\<not> isspace U c" using hd_dropWhile [of "isspace U" s] Cons by simp
    from "1.prems" consider "t = c # takeWhile (\<lambda>x. \<not> isspace U x) cs"
      | "t \<in> set (split_ws U (dropWhile (\<lambda>x. \<not> isspace U x) cs))"
      unfolding split_ws.simps [of U s] Cons by auto
    then show ?thesis
    proof cases
      case 1
      have "set (takeWhile (\<lambda>x. \<not> isspace U x) cs) \<subseteq> set cs"
        by (auto dest: set_takeWhileD)
      moreover have "\<forall>x\<in>set (takeWhile (\<lambda>x. \<not> isspace U x) cs). \<not> isspace U x"
        by (auto dest: set_takeWhileD)
      ultimately show ?thesis using 1 c sub by auto
    next
      case 2
      from "1.IH" [OF Cons 2] have
        "t \<noteq> [] \<and> set t \<subseteq> set (dropWhile (\<lambda>x. \<not> isspace U x) cs) \<and> (\<forall>c\<in>set t. \<not> isspace U c)" .
      moreover have "set (dropWhile (\<lambda>x. \<not> isspace U x) cs) \<subseteq> set cs"
        by (auto dest: set_dropWhileD)
      ultimately show ?thesis using sub by auto
    qed
  qed
qed

lemma finditer_ascii:
  "python_tables U \<Longrightarrow> is_ascii s \<Longrightarrow> finditer U p s = finditer ascii_db p s"
proof (induction U p s rule: finditer.induct)
  case (1 U p)
  then show ?case by simp
next
  case (2 U p c cs)
  have e: "ends U p (c # cs) = ends ascii_db p (c # cs)"
    by (rule ends_ascii [OF "2.prems"])
  have cs: "is_ascii cs" using "2.prems"(2) by simp
  show ?case
  proof (cases "ends ascii_db p (c # cs)")
    case Nil
    with "2.IH"(1) "2.prems"(1) cs e show ?thesis by simp
  next
    case (Cons x xs)
    obtain g0 r0 where x: "x = (g0, r0)" by (cases x)
    have "(g0, r0) \<in> set (ends U p (c # cs))" unfolding e Cons x by simp
    from ends_rest_ascii [OF this "2.prems"(2)] have r0: "is_ascii r0" .
    from Cons e have eU: "ends U p (c # cs) = x # xs" by simp
    show ?thesis
    proof (cases "length r0 < length (c # cs)")
      case True
      from "2.IH"(2) [OF eU x [symmetric] True "2.prems"(1) r0] True
      show ?thesis unfolding finditer.simps(2) [of U] finditer.simps(2) [of ascii_db] e Cons x
        by simp
    next
      case False
      from "2.IH"(3) [OF eU x [symmetric] False "2.prems"(1) cs] False
      show ?thesis unfolding finditer.simps(2) [of U] finditer.simps(2) [of ascii_db] e Cons x
        by simp
    qed
  qed
qed

lemma re_sub_del_ascii:
  "python_tables U \<Longrightarrow> is_ascii s \<Longrightarrow> re_sub_del U p s = re_sub_del ascii_db p s"
proof (induction U p s rule: re_sub_del.induct)
  case (1 U p)
  then show ?case by simp
next
  case (2 U p c cs)
  have e: "ends U p (c # cs) = ends ascii_db p (c # cs)"
    by (rule ends_ascii [OF "2.prems"])
  have cs: "is_ascii cs" using "2.prems"(2) by simp
  show ?case
  proof (cases "ends ascii_db p (c # cs)")
    case Nil
    with "2.IH"(1) "2.prems"(1) cs e show ?thesis by simp
  next
    case (Cons x xs)
    obtain g0 r0 where x: "x = (g0, r0)" by (cases x)
    have "(g0, r0) \<in> set (ends U p (c # cs))" unfolding e Cons x by simp
    from ends_rest_ascii [OF this "2.prems"(2)] have r0: "is_ascii r0" .
    from Cons e have eU: "ends U p (c # cs) = x # xs" by simp
    show ?thesis
    proof (cases "length r0 < length (c # cs)")
      case True
      from "2.IH"(2) [OF eU x [symmetric] True "2.prems"(1) r0] True
      show ?thesis unfolding re_sub_del.simps(2) [of U] re_sub_del.simps(2) [of ascii_db] e Cons x
        by simp
    next
      case False
      from "2.IH"(3) [OF eU x [symmetric] False "2.prems"(1) cs] False
      show ?thesis unfolding re_sub_del.simps(2) [of U] re_sub_del.simps(2) [of ascii_db] e Cons x
        by simp
    qed
  qed
qed

lemma set_re_sub_del: "x \<in> set (re_sub_del U p s) \<Longrightarrow> x \<in> set s"
proof (induction U p s rule: re_sub_del.induct)
  case (1 U p)
  then show ?case by simp
next
  case (2 U p c cs)
  show ?case
  proof (cases "ends U p (c # cs)")
    case Nil
    with 2 show ?thesis by auto
  next
    case (Cons y ys)
    obtain g0 r0 where y: "y = (g0, r0)" by (cases y)
    have "(g0, r0) \<in> set (ends U p (c # cs))" unfolding Cons y by simp
    from ends_split [OF this] obtain u where u: "c # cs = u @ r0" ..
    show ?thesis
    proof (cases "length r0 < length (c # cs)")
      case True
      with "2.prems" Cons y have "x \<in> set (re_sub_del U p r0)" by simp
      from "2.IH"(2) [OF Cons y [symmetric] True this] have "x \<in> set r0" .
      then have "x \<in> set (u @ r0)" by simp
      then show ?thesis unfolding u [symmetric] .
    next
      case False
      with "2.prems" Cons y have "x = c \<or> x \<in> set (re_sub_del U p cs)" by simp
      with "2.IH"(3) [OF Cons y [symmetric] False] show ?thesis by auto
    qed
  qed
qed

section \<open>Facts about \<open>normalize_author\<close>\<close>

lemma re_sub_del_class:
  "re_sub_del U (Non is) s = filter (\<lambda>c. list_ex (\<lambda>i. in_item U i c) is) s"
  by (induction s) simp_all

lemma strange_kept:
  "x \<in> set (re_sub_del U strange_rx s) \<Longrightarrow>
   x \<in> set s \<and> ((65 \<le> x \<and> x \<le> 90) \<or> (97 \<le> x \<and> x \<le> 122) \<or> x = 45 \<or> x = 39 \<or> isspace U x)"
  unfolding strange_rx_def re_sub_del_class by (auto simp: ord_values)

lemma normalize_author_tokens:
  "normalize_author U s =
     (let tokens = split_ws U (author_part U s)
      in if tokens = [] then []
         else lower U (re_sub_del U strange_rx
                 (if length tokens \<ge> 2 \<and> re_match U initial_rx (hd tokens)
                  then last tokens else hd tokens)))"
  by (simp add: normalize_author_def author_part_def Let_def)

lemma set_author_part: "x \<in> set (author_part U s) \<Longrightarrow> x \<in> set s"
  by (auto simp: author_part_def Let_def before_first_def
      dest!: set_strip set_re_sub_del set_takeWhileD split: if_splits)

lemma author_part_ascii:
  assumes pt: "python_tables U" and a: "is_ascii s"
  shows "author_part U s = author_part ascii_db s"
proof -
  have 1: "strip U s = strip ascii_db s" by (rule strip_ascii [OF pt a])
  have a1: "is_ascii (strip ascii_db s)" by (rule is_ascii_strip [OF a])
  have 2: "re_sub_del U et_al_rx (strip ascii_db s) = re_sub_del ascii_db et_al_rx (strip ascii_db s)"
    by (rule re_sub_del_ascii [OF pt a1])
  have a2: "is_ascii (re_sub_del ascii_db et_al_rx (strip ascii_db s))"
    by (rule is_ascii_sub [OF a1]) (auto dest: set_re_sub_del)
  have 3: "strip U (re_sub_del ascii_db et_al_rx (strip ascii_db s))
         = strip ascii_db (re_sub_del ascii_db et_al_rx (strip ascii_db s))"
    by (rule strip_ascii [OF pt a2])
  have a3: "is_ascii (strip ascii_db (re_sub_del ascii_db et_al_rx (strip ascii_db s)))"
    by (rule is_ascii_strip [OF a2])
  have 4: "strip U (before_first (ord CHR '','')
                     (strip ascii_db (re_sub_del ascii_db et_al_rx (strip ascii_db s))))
         = strip ascii_db (before_first (ord CHR '','')
                     (strip ascii_db (re_sub_del ascii_db et_al_rx (strip ascii_db s))))"
    by (rule strip_ascii [OF pt]) (simp add: before_first_def is_ascii_parts a3)
  show ?thesis unfolding author_part_def Let_def 1 2 3 4 ..
qed

lemma normalize_author_ascii:
  assumes pt: "python_tables U" and a: "is_ascii s"
  shows "normalize_author U s = normalize_author ascii_db s"
proof -
  let ?tokens = "split_ws ascii_db (author_part ascii_db s)"
  have ap: "is_ascii (author_part ascii_db s)"
    by (rule is_ascii_sub [OF a]) (auto dest: set_author_part)
  have 1: "split_ws U (author_part U s) = ?tokens"
    unfolding author_part_ascii [OF pt a] by (rule split_ws_ascii [OF pt ap])
  show ?thesis
  proof (cases "?tokens = []")
    case True
    then show ?thesis unfolding normalize_author_tokens 1 by simp
  next
    case False
    have tok: "\<And>t. t \<in> set ?tokens \<Longrightarrow> is_ascii t"
      using split_ws_tokens [of _ ascii_db "author_part ascii_db s"] is_ascii_sub [OF ap] by blast
    have h: "is_ascii (hd ?tokens)" and l: "is_ascii (last ?tokens)"
      using False tok by simp_all
    have 2: "re_match U initial_rx (hd ?tokens) = re_match ascii_db initial_rx (hd ?tokens)"
      unfolding re_match_def ends_ascii [OF pt h] ..
    let ?sur = "if length ?tokens \<ge> 2 \<and> re_match ascii_db initial_rx (hd ?tokens)
                then last ?tokens else hd ?tokens"
    have sa: "is_ascii ?sur" using h l by simp
    have 3: "re_sub_del U strange_rx ?sur = re_sub_del ascii_db strange_rx ?sur"
      by (rule re_sub_del_ascii [OF pt sa])
    have "is_ascii (re_sub_del ascii_db strange_rx ?sur)"
      by (rule is_ascii_sub [OF sa]) (auto dest: set_re_sub_del)
    from pt_lower [OF pt this] show ?thesis
      unfolding normalize_author_tokens 1 2 3 Let_def by simp
  qed
qed

lemma is_ascii_str_example:
  "is_ascii (str ''X. Duer et al.'')" "is_ascii (str ''X. Duer et al'')"
  "is_ascii (str ''X. Li'')" "is_ascii (str ''Li, X.'')"
  by code_simp+

lemma normalize_examples_ascii:
  "normalize_author ascii_db (str ''X. Duer et al.'') = str ''duer''"
  "normalize_author ascii_db (str ''X. Duer et al'') = str ''al''"
  "normalize_author ascii_db (str ''X. Li'') = str ''li''"
  "normalize_author ascii_db (str ''Li, X.'') = str ''li''"
  by code_simp+

lemma surname_alphabet:
  assumes pt: "python_tables U" and t: "\<forall>c\<in>set t. \<not> isspace U c"
    and x: "x \<in> set (lower U (re_sub_del U strange_rx t))"
  shows "(97 \<le> x \<and> x \<le> 122) \<or> x = 45 \<or> x = 39"
proof -
  let ?f = "re_sub_del U strange_rx t"
  have k: "\<And>y. y \<in> set ?f \<Longrightarrow> (65 \<le> y \<and> y \<le> 90) \<or> (97 \<le> y \<and> y \<le> 122) \<or> y = 45 \<or> y = 39"
    using strange_kept [of _ U t] t by blast
  have "is_ascii ?f" unfolding is_ascii_def list_all_iff using k by fastforce
  from pt_lower [OF pt this] have "lower U ?f = map ascii_lower ?f" by (simp add: ascii_db_def)
  with x obtain y where y: "y \<in> set ?f" and xy: "x = ascii_lower y" by auto
  from k [OF y] show ?thesis unfolding xy ascii_lower_def ord_values by auto
qed

lemma normalize_author_cases:
  "normalize_author U s = [] \<or>
   (\<exists>t. t \<in> set (split_ws U (author_part U s)) \<and>
        normalize_author U s = lower U (re_sub_del U strange_rx t))"
proof (cases "split_ws U (author_part U s) = []")
  case True
  then show ?thesis unfolding normalize_author_tokens by simp
next
  case False
  let ?tokens = "split_ws U (author_part U s)"
  let ?t = "if length ?tokens \<ge> 2 \<and> re_match U initial_rx (hd ?tokens)
            then last ?tokens else hd ?tokens"
  have 1: "?t \<in> set ?tokens" using False by simp
  have 2: "normalize_author U s = lower U (re_sub_del U strange_rx ?t)"
    unfolding normalize_author_tokens Let_def using False by simp
  from 1 2 show ?thesis by blast
qed

text \<open>
  C10: whatever the input, the normalised author has only lower-case letters, hyphens and
  apostrophes in it. White space, which the claim would allow, cannot occur either: the
  surname is one token of \<open>split\<close>.
\<close>

theorem normalize_author_alphabet:
  assumes "python_tables U"
  shows "(\<forall>c\<in>set (normalize_author U s).
            (ord CHR ''a'' \<le> c \<and> c \<le> ord CHR ''z'') \<or> c = ord CHR ''-'' \<or> c = ord (CHR 0x27)
            \<or> isspace U c)
       \<and> (\<forall>c\<in>set (normalize_author U s).
            \<not> isdecimal U c \<and> \<not> (ord CHR ''A'' \<le> c \<and> c \<le> ord CHR ''Z'') \<and> c \<noteq> ord CHR ''.''
            \<and> \<not> isspace U c)"
proof -
  have k: "\<And>c. c \<in> set (normalize_author U s) \<Longrightarrow> (97 \<le> c \<and> c \<le> 122) \<or> c = 45 \<or> c = 39"
  proof -
    fix c assume c: "c \<in> set (normalize_author U s)"
    from normalize_author_cases [of U s] c obtain t where
      t: "t \<in> set (split_ws U (author_part U s))"
      and n: "normalize_author U s = lower U (re_sub_del U strange_rx t)" by auto
    from split_ws_tokens [OF t] have "\<forall>c\<in>set t. \<not> isspace U c" by blast
    from surname_alphabet [OF assms this] c n show "(97 \<le> c \<and> c \<le> 122) \<or> c = 45 \<or> c = 39"
      by simp
  qed
  have d: "\<And>c. (97 \<le> c \<and> c \<le> 122) \<or> c = 45 \<or> c = 39 \<Longrightarrow> \<not> isdecimal U c \<and> \<not> isspace U c"
  proof -
    fix c :: int assume c: "(97 \<le> c \<and> c \<le> 122) \<or> c = 45 \<or> c = 39"
    then have "c < 128" by auto
    with assms have "isdecimal U c = ascii_isdigit c" "isspace U c = ascii_isspace c"
      by (simp_all add: python_tables_def)
    with c show "\<not> isdecimal U c \<and> \<not> isspace U c"
      by (auto simp: ascii_isdigit_def ascii_isspace_def ord_values)
  qed
  show ?thesis unfolding ord_values using k d by fastforce
qed

theorem normalize_author_alphabet_witness:
  "python_tables ascii_db
   \<and> normalize_author ascii_db (str ''X. Duer et al.'') = str ''duer''
   \<and> list_all (\<lambda>c. (ord CHR ''a'' \<le> c \<and> c \<le> ord CHR ''z'') \<or> c = ord CHR ''-''
                     \<or> c = ord (CHR 0x27) \<or> isspace ascii_db c) (str ''duer'')
   \<and> list_all (\<lambda>c. \<not> isdecimal ascii_db c \<and> \<not> (ord CHR ''A'' \<le> c \<and> c \<le> ord CHR ''Z'')
                     \<and> c \<noteq> ord CHR ''.'' \<and> \<not> isspace ascii_db c) (str ''duer'')"
  using normalize_author_alphabet [OF python_tables_ascii, of "str ''X. Duer et al.''"]
    python_tables_ascii
  unfolding normalize_examples_ascii(1) list_all_iff by blast

lemma ends_Eol_iff: "(g, r) \<in> set (ends U Eol s) \<longleftrightarrow> (g = [] \<and> r = s \<and> (s = [] \<or> s = [10]))"
  by (auto simp: ord_values)

lemma re_match_initial:
  "re_match U initial_rx t \<longleftrightarrow>
   (\<exists>c r. t = c # r \<and> 65 \<le> c \<and> c \<le> 90 \<and> (r = [] \<or> r = [10] \<or> r = [46] \<or> r = [46, 10]))"
proof -
  have "re_match U initial_rx t \<longleftrightarrow> (\<exists>g r. (g, r) \<in> set (ends U initial_rx t))"
    unfolding re_match_def by (cases "ends U initial_rx t") auto
  also have "\<dots> \<longleftrightarrow>
    (\<exists>c r. t = c # r \<and> 65 \<le> c \<and> c \<le> 90 \<and> (r = [] \<or> r = [10] \<or> r = [46] \<or> r = [46, 10]))"
    unfolding initial_rx_def seqs.simps ends_Seq_iff ends_Opt_iff ends_lit_iff ends_class_iff
      ends_Eol_iff
    by (auto simp: ord_values) blast+
  finally show ?thesis .
qed

lemma re_match_initial_token:
  assumes "python_tables U" and "\<forall>c\<in>set t. \<not> isspace U c"
  shows "re_match U initial_rx t = is_initial t"
proof -
  have "isspace U 10" using assms(1) by (simp add: python_tables_def ascii_isspace_def)
  with assms(2) have n: "10 \<notin> set t" by blast
  show ?thesis
  proof (cases t)
    case Nil
    then show ?thesis unfolding re_match_initial is_initial_def by simp
  next
    case (Cons c r)
    note c = this
    show ?thesis
    proof (cases r)
      case Nil
      with c show ?thesis unfolding re_match_initial is_initial_def by (simp add: ord_values)
    next
      case (Cons d r')
      with c n show ?thesis unfolding re_match_initial is_initial_def
        by (cases r') (auto simp: ord_values)
    qed
  qed
qed

lemma et_al_literal: "str ''et al.'' = [101, 116, 32, 97, 108, 46]"
  by (simp add: str_def ord_def)

lemma ends_lit: "ends U (lit c) s = (case s of [] \<Rightarrow> [] | x # xs \<Rightarrow> if x = ord c then [([], xs)] else [])"
  by (simp add: lit_def split: list.split)

lemma ends_et_al:
  "ends U et_al_rx s =
     (if take 6 s = str ''et al.'' then [([], drop 6 s)] else [])"
proof -
  have "ends U et_al_rx s =
    (case s of a # b # c # d # e # f # r \<Rightarrow>
       if a = 101 \<and> b = 116 \<and> c = 32 \<and> d = 97 \<and> e = 108 \<and> f = 46 then [([], r)] else []
     | _ \<Rightarrow> [])"
    unfolding et_al_rx_def seqs.simps ends.simps(3) ends_lit
    by (simp add: ord_values ord_def split: list.split)
  also have "\<dots> = (if take 6 s = str ''et al.'' then [([], drop 6 s)] else [])"
    unfolding et_al_literal by (auto split: list.split)
  finally show ?thesis .
qed

lemma re_sub_del_et_al: "re_sub_del U et_al_rx s = delete_all (str ''et al.'') s"
proof (induction "str ''et al.''" s rule: delete_all.induct)
  case 1
  then show ?case by simp
next
  case (2 c cs)
  have l: "length (str ''et al.'') = 6" "str ''et al.'' \<noteq> []" by (simp_all add: et_al_literal)
  show ?case
  proof (cases "take 6 (c # cs) = str ''et al.''")
    case True
    from "2.hyps"(1) True l have "re_sub_del U et_al_rx (drop 6 (c # cs)) = delete_all (str ''et al.'') (drop 6 (c # cs))"
      by simp
    then show ?thesis using True l by (simp add: ends_et_al)
  next
    case False
    from "2.hyps"(2) False l have "re_sub_del U et_al_rx cs = delete_all (str ''et al.'') cs" by simp
    then show ?thesis using False l by (simp add: ends_et_al)
  qed
qed

text \<open>
  C4, as the code has it: the pattern is \<open>et al\.\<close>, so what is deleted is every
  occurrence of the six characters \<open>et al.\<close>, full stop included, in the same case.
  With the full stop \<open>X. Duer et al.\<close> gives \<open>duer\<close>; without it nothing is
  deleted, the first token is an initial, and the last token \<open>al\<close> is the surname.
\<close>

theorem et_al_removal:
  assumes "python_tables U"
  shows "re_sub_del U et_al_rx s = delete_all (str ''et al.'') s
       \<and> normalize_author U (str ''X. Duer et al.'') = str ''duer''
       \<and> normalize_author U (str ''X. Duer et al'') = str ''al''"
  using re_sub_del_et_al [of U s]
    normalize_author_ascii [OF assms is_ascii_str_example(1)]
    normalize_author_ascii [OF assms is_ascii_str_example(2)]
  unfolding normalize_examples_ascii by blast

theorem et_al_removal_witness:
  "python_tables ascii_db
   \<and> re_sub_del ascii_db et_al_rx (str ''X. Duer et al.'') = delete_all (str ''et al.'') (str ''X. Duer et al.'')
   \<and> normalize_author ascii_db (str ''X. Duer et al.'') = str ''duer''
   \<and> normalize_author ascii_db (str ''X. Duer et al'') = str ''al''"
  using et_al_removal [OF python_tables_ascii, of "str ''X. Duer et al.''"] python_tables_ascii
  by blast

lemma al_not_duer: "str ''al'' \<noteq> str ''duer''"
  by (simp add: str_def)

text \<open>C4 as stated fails: the full stop is not optional.\<close>

theorem et_al_without_period_counterexample:
  "normalize_author ascii_db (str ''X. Duer et al'') = str ''al''
   \<and> normalize_author ascii_db (str ''X. Duer et al'') \<noteq> str ''duer''
   \<and> normalize_author ascii_db (str ''X. Duer et al'')
       \<noteq> normalize_author ascii_db (str ''X. Duer et al.'')"
  unfolding normalize_examples_ascii using al_not_duer by simp

text \<open>
  C8: of the tokens left after the removal of \<open>et al.\<close> and the cut at the first comma,
  the last is the surname when there are at least two and the first is an initial, and
  the first otherwise.
\<close>

theorem surname_selection:
  assumes "python_tables U"
  shows "normalize_author U s =
           (let tokens = split_ws U (author_part U s)
            in if tokens = [] then []
               else lower U (re_sub_del U strange_rx
                       (if length tokens \<ge> 2 \<and> is_initial (hd tokens)
                        then last tokens else hd tokens)))
       \<and> normalize_author U (str ''X. Li'') = str ''li''
       \<and> normalize_author U (str ''Li, X.'') = str ''li''"
proof -
  let ?tokens = "split_ws U (author_part U s)"
  have 1: "normalize_author U s =
           (let tokens = ?tokens
            in if tokens = [] then []
               else lower U (re_sub_del U strange_rx
                       (if length tokens \<ge> 2 \<and> is_initial (hd tokens)
                        then last tokens else hd tokens)))"
  proof (cases "?tokens = []")
    case True
    then show ?thesis unfolding normalize_author_tokens by simp
  next
    case False
    then have "hd ?tokens \<in> set ?tokens" by simp
    from split_ws_tokens [OF this] have "\<forall>c\<in>set (hd ?tokens). \<not> isspace U c" by blast
    from re_match_initial_token [OF assms this]
    show ?thesis unfolding normalize_author_tokens Let_def by simp
  qed
  from 1 normalize_author_ascii [OF assms is_ascii_str_example(3)]
    normalize_author_ascii [OF assms is_ascii_str_example(4)]
  show ?thesis unfolding normalize_examples_ascii by blast
qed

theorem surname_selection_witness:
  "python_tables ascii_db
   \<and> normalize_author ascii_db (str ''X. Li'') = str ''li''
   \<and> normalize_author ascii_db (str ''Li, X.'') = str ''li''"
  using surname_selection [OF python_tables_ascii, of "str ''X. Li''"] python_tables_ascii
  by blast

section \<open>The two scenarios\<close>

lemma extract_citations_ascii:
  assumes pt: "python_tables U" and a: "is_ascii text"
  shows "extract_citations U text = extract_citations ascii_db text"
proof -
  have f: "finditer U citation_rx text = finditer ascii_db citation_rx text"
    by (rule finditer_ascii [OF pt a])
  have "map (\<lambda>c. strip U (butlast (tl c))) (map snd (finditer ascii_db citation_rx text))
      = map (\<lambda>c. strip ascii_db (butlast (tl c))) (map snd (finditer ascii_db citation_rx text))"
  proof (rule map_cong [OF refl])
    fix m assume "m \<in> set (map snd (finditer ascii_db citation_rx text))"
    then obtain g where "(g, m) \<in> set (finditer ascii_db citation_rx text)" by auto
    from finditer_sound [OF this] obtain pre r where "text = pre @ m @ r" by blast
    with a have "is_ascii m" by simp
    then have "is_ascii (butlast (tl m))" by (simp add: is_ascii_parts)
    from strip_ascii [OF pt this]
    show "strip U (butlast (tl m)) = strip ascii_db (butlast (tl m))" .
  qed
  then show ?thesis unfolding extract_citations_def Let_def f .
qed

lemma scan_example_ascii_text: "is_ascii scan_example"
  by code_simp

lemma scan_example_candidates:
  "extract_citations ascii_db scan_example = [str ''Duer et al., 1992; Luo, 2022'']"
  by code_simp

lemma see_discussion_no_year: "\<not> has_year_token ascii_db (str ''see discussion'')"
  by code_simp

lemma has_year_token_ascii:
  "python_tables U \<Longrightarrow> is_ascii s \<Longrightarrow> has_year_token U s = has_year_token ascii_db s"
  by (induction U s rule: has_year_token.induct) (simp_all add: pt_digit)

lemma see_discussion_ascii: "is_ascii (str ''see discussion'')"
  by code_simp

text \<open>
  C6: in the example text the scanner finds the first bracket and nothing else; the
  second bracket has no year token in it.
\<close>

theorem scan_example_one_candidate:
  assumes "python_tables U"
  shows "extract_citations U scan_example = [str ''Duer et al., 1992; Luo, 2022'']
       \<and> \<not> has_year_token U (str ''see discussion'')"
  unfolding extract_citations_ascii [OF assms scan_example_ascii_text]
    has_year_token_ascii [OF assms see_discussion_ascii]
  using scan_example_candidates see_discussion_no_year by blast

theorem scan_example_one_candidate_witness:
  "python_tables ascii_db
   \<and> extract_citations ascii_db scan_example = [str ''Duer et al., 1992; Luo, 2022'']
   \<and> \<not> has_year_token ascii_db (str ''see discussion'')"
  using scan_example_one_candidate [OF python_tables_ascii] python_tables_ascii by blast

lemma allan_matches:
  "finditer ascii_db author_year_rx allan_example =
     [([(2, str ''1999''), (1, str ''Allan'')], str ''Allan, 1999''),
      ([(2, str ''1999''), (1, str ''Allan and Jones'')], str ''Allan and Jones, 1999'')]"
  by code_simp

lemma allan_ascii:
  "is_ascii allan_example" "is_ascii (str ''Allan'')" "is_ascii (str ''Allan and Jones'')"
  by code_simp+

lemma allan_values:
  "strip ascii_db (str ''Allan'') = str ''Allan''"
  "strip ascii_db (str ''Allan and Jones'') = str ''Allan and Jones''"
  "normalize_author ascii_db (str ''Allan'') = str ''allan''"
  "normalize_author ascii_db (str ''Allan and Jones'') = str ''allan''"
  "make_key (str ''allan'') (str ''1999'') = str ''allan|1999''"
  "str ''allan'' \<noteq> []"
  by code_simp+

lemma allan_add_match:
  assumes pt: "python_tables U"
  shows "add_match U cit ([(2, str ''1999''), (1, str ''Allan'')], w) m
         = m(str ''allan|1999'' \<mapsto> insert cit (case m (str ''allan|1999'') of None \<Rightarrow> {} | Some ex \<Rightarrow> ex))"
    and "add_match U cit ([(2, str ''1999''), (1, str ''Allan and Jones'')], w) m
         = m(str ''allan|1999'' \<mapsto> insert cit (case m (str ''allan|1999'') of None \<Rightarrow> {} | Some ex \<Rightarrow> ex))"
proof -
  have 1: "strip U (str ''Allan'') = str ''Allan''"
    unfolding strip_ascii [OF pt allan_ascii(2)] by (rule allan_values)
  have 2: "strip U (str ''Allan and Jones'') = str ''Allan and Jones''"
    unfolding strip_ascii [OF pt allan_ascii(3)] by (rule allan_values)
  have 3: "normalize_author U (str ''Allan'') = str ''allan''"
    unfolding normalize_author_ascii [OF pt allan_ascii(2)] by (rule allan_values)
  have 4: "normalize_author U (str ''Allan and Jones'') = str ''allan''"
    unfolding normalize_author_ascii [OF pt allan_ascii(3)] by (rule allan_values)
  show "add_match U cit ([(2, str ''1999''), (1, str ''Allan'')], w) m
         = m(str ''allan|1999'' \<mapsto> insert cit (case m (str ''allan|1999'') of None \<Rightarrow> {} | Some ex \<Rightarrow> ex))"
    unfolding add_match_def by (simp add: 1 3 allan_values(5,6) Let_def)
  show "add_match U cit ([(2, str ''1999''), (1, str ''Allan and Jones'')], w) m
         = m(str ''allan|1999'' \<mapsto> insert cit (case m (str ''allan|1999'') of None \<Rightarrow> {} | Some ex \<Rightarrow> ex))"
    unfolding add_match_def by (simp add: 2 4 allan_values(5,6) Let_def)
qed

text \<open>
  C7: in the example candidate only the two segments with a comma before the year match,
  and both give the key \<open>allan|1999\<close>.
\<close>

theorem allan_example_keys:
  assumes "python_tables U"
  shows "build_citation_keys U [allan_example] = [str ''allan|1999'' \<mapsto> {allan_example}]
       \<and> dom (build_citation_keys U [allan_example]) = {str ''allan|1999''}"
proof -
  have "build_citation_keys U [allan_example]
      = fold (add_match U allan_example) (finditer U author_year_rx allan_example) Map.empty"
    by (simp add: build_citation_keys_def)
  also have "\<dots> = [str ''allan|1999'' \<mapsto> {allan_example}]"
    unfolding finditer_ascii [OF assms allan_ascii(1)] allan_matches
    by (simp only: fold_simps allan_add_match [OF assms]) simp
  finally show ?thesis by simp
qed

theorem allan_example_keys_witness:
  "python_tables ascii_db
   \<and> dom (build_citation_keys ascii_db [allan_example]) = {str ''allan|1999''}"
  using allan_example_keys [OF python_tables_ascii] python_tables_ascii by blast

section \<open>The reference list\<close>

lemma fold_ref_step_started:
  "fold (ref_step U) ps (True, acc) = (True, acc @ filter (\<lambda>t. t \<noteq> []) (map (strip U) ps))"
  by (induction ps arbitrary: acc) (simp_all add: ref_step_def Let_def)

lemma fold_ref_step_waiting:
  "fold (ref_step U) ps (False, acc) =
     (case dropWhile (\<lambda>p. \<not> is_heading U p) ps of
        [] \<Rightarrow> (False, acc)
      | heading # rest \<Rightarrow> (True, acc @ filter (\<lambda>t. t \<noteq> []) (map (strip U) rest)))"
proof (induction ps)
  case Nil
  then show ?case by simp
next
  case (Cons p ps)
  show ?case
  proof (cases "is_heading U p")
    case True
    then have "ref_step U p (False, acc) = (True, acc)"
      by (simp add: ref_step_def is_heading_def Let_def)
    with True show ?thesis by (simp add: fold_ref_step_started)
  next
    case False
    then have "ref_step U p (False, acc) = (False, acc)"
      by (simp add: ref_step_def is_heading_def Let_def)
    with False Cons show ?thesis by simp
  qed
qed

lemma no_heading_doc_scan: "list_all (\<lambda>p. \<not> is_heading ascii_db p) (paragraphs no_heading_doc)"
  by code_simp

text \<open>
  C9: the locator returns the paragraphs after the first heading, trimmed and without
  the empty ones, and the empty list when no paragraph is a heading. It is a total
  function of the paragraph texts: no input makes it fail.
\<close>

theorem locator_is_spec:
  "extract_reference_paragraphs U doc = locator_spec U (paragraphs doc)
   \<and> (list_all (\<lambda>p. \<not> is_heading U p) (paragraphs doc)
        \<longrightarrow> extract_reference_paragraphs U doc = [])"
proof -
  have 1: "extract_reference_paragraphs U doc = locator_spec U (paragraphs doc)"
  proof (cases "dropWhile (\<lambda>p. \<not> is_heading U p) (paragraphs doc)")
    case Nil
    show ?thesis
      unfolding extract_reference_paragraphs_def locator_spec_def fold_ref_step_waiting Nil
      by simp
  next
    case (Cons h rest)
    show ?thesis
      unfolding extract_reference_paragraphs_def locator_spec_def fold_ref_step_waiting Cons
      by simp
  qed
  have 2: "extract_reference_paragraphs U doc = []"
    if "list_all (\<lambda>p. \<not> is_heading U p) (paragraphs doc)"
  proof -
    from that have e: "dropWhile (\<lambda>p. \<not> is_heading U p) (paragraphs doc) = []"
      by (simp add: list_all_iff)
    have "locator_spec U (paragraphs doc) = []" unfolding locator_spec_def e by simp
    with 1 show ?thesis by simp
  qed
  from 1 2 show ?thesis by blast
qed

theorem locator_is_spec_witness:
  "list_all (\<lambda>p. \<not> is_heading ascii_db p) (paragraphs no_heading_doc)
   \<and> extract_reference_paragraphs ascii_db no_heading_doc = []"
  using locator_is_spec [of ascii_db no_heading_doc] no_heading_doc_scan by blast

section \<open>The reference entries\<close>

lemma ends_year_rx_digits:
  assumes "isdecimal U a" "isdecimal U b" "isdecimal U c" "isdecimal U d"
  shows "ends U (Grp 1 year_rx) (a # b # c # d # s) \<noteq> []"
  using assms by (simp add: year_rx_def)

lemma ends_year_rx_group:
  "(g, r) \<in> set (ends U (Grp 1 year_rx) s) \<Longrightarrow> \<exists>y. map_of g 1 = Some y"
  unfolding ends_Grp_iff by auto

lemma ends_year_rx_needs:
  assumes "ends U (Grp 1 year_rx) s \<noteq> []"
  shows "has_year_token U s"
proof -
  from assms obtain x xs where "ends U (Grp 1 year_rx) s = x # xs"
    unfolding neq_Nil_conv by blast
  then have x: "x \<in> set (ends U (Grp 1 year_rx) s)" by simp
  obtain g r where "x = (g, r)" by (cases x)
  with x have "(g, r) \<in> set (ends U (Grp 1 year_rx) s)" by simp
  then obtain g' where "(g', r) \<in> set (ends U year_rx s)" unfolding ends_Grp_iff by blast
  from ends_year_rx [OF this] obtain a b c d l where
    "s = a # b # c # d # l @ r" "isdecimal U a" "isdecimal U b" "isdecimal U c" "isdecimal U d"
    by blast
  then show ?thesis by simp
qed

lemma re_search_year:
  "(re_search U (Grp 1 year_rx) s \<noteq> None) = has_year_token U s"
proof (induction s)
  case Nil
  have "ends U (Grp 1 year_rx) [] = []" by (simp add: year_rx_def)
  then show ?case by simp
next
  case (Cons x s)
  show ?case
  proof (cases "ends U (Grp 1 year_rx) (x # s)")
    case Nil
    have "\<not> (\<exists>b c d t. s = b # c # d # t \<and> isdecimal U x \<and> isdecimal U b \<and> isdecimal U c \<and> isdecimal U d)"
      using ends_year_rx_digits [of U x] Nil by metis
    then have "has_year_token U (x # s) = has_year_token U s"
      by (cases s; cases "tl s"; cases "tl (tl s)") auto
    with Cons Nil show ?thesis by simp
  next
    case (Cons y ys)
    then have "ends U (Grp 1 year_rx) (x # s) \<noteq> []" by simp
    from ends_year_rx_needs [OF this] Cons show ?thesis by (simp split: prod.split)
  qed
qed

lemma re_search_year_group:
  "re_search U (Grp 1 year_rx) s = Some m \<Longrightarrow> \<exists>y. map_of (fst m) 1 = Some y"
proof (induction s)
  case Nil
  have "ends U (Grp 1 year_rx) [] = []" by (simp add: year_rx_def)
  with Nil show ?case by simp
next
  case (Cons x s)
  show ?case
  proof (cases "ends U (Grp 1 year_rx) (x # s)")
    case Nil
    with Cons show ?thesis by simp
  next
    case (Cons y ys)
    obtain g r where y: "y = (g, r)" by (cases y)
    with Cons have "(g, r) \<in> set (ends U (Grp 1 year_rx) (x # s))" by simp
    from ends_year_rx_group [OF this] obtain v where "map_of g 1 = Some v" ..
    moreover from Cons.prems Cons y have "fst m = g" by auto
    ultimately show ?thesis by simp
  qed
qed

lemma parse_line_keeps: "(parse_line U (i, line) \<noteq> None) = keeps U line"
proof (cases "re_search U (Grp 1 year_rx) line")
  case None
  with re_search_year [of U line] have "\<not> has_year_token U line" by simp
  with None show ?thesis by (simp add: parse_line_def keeps_def)
next
  case (Some m)
  with re_search_year [of U line] have h: "has_year_token U line" by simp
  from re_search_year_group [OF Some] obtain y where "map_of (fst m) 1 = Some y" ..
  with Some h show ?thesis by (simp add: parse_line_def keeps_def Let_def)
qed

lemma parse_line_fields: "parse_line U (i, line) = Some e \<Longrightarrow> index e = i \<and> raw e = line"
  by (auto simp: parse_line_def Let_def split: option.splits if_splits)

lemma parse_entries_snoc:
  "parse_reference_entries U (ls @ [x]) =
     parse_reference_entries U ls
     @ (case parse_line U (length ls, x) of None \<Rightarrow> [] | Some e \<Rightarrow> [e])"
  by (simp add: parse_reference_entries_def enumerate_append_eq List.map_filter_def
      split: option.split)

lemma parse_entries_index:
  "map index (parse_reference_entries U ls) = filter (\<lambda>i. keeps U (ls ! i)) [0..<length ls]
   \<and> list_all (\<lambda>e. index e < length ls \<and> raw e = ls ! index e) (parse_reference_entries U ls)"
proof (induction ls rule: rev_induct)
  case Nil
  then show ?case by (simp add: parse_reference_entries_def List.map_filter_def)
next
  case (snoc x ls)
  have f: "filter (\<lambda>i. keeps U ((ls @ [x]) ! i)) [0..<length ls]
         = filter (\<lambda>i. keeps U (ls ! i)) [0..<length ls]"
    by (rule filter_cong [OF refl]) (simp add: nth_append)
  have l: "list_all (\<lambda>e. index e < length (ls @ [x]) \<and> raw e = (ls @ [x]) ! index e)
             (parse_reference_entries U ls)"
    using snoc unfolding list_all_iff by (auto simp: nth_append)
  show ?case
  proof (cases "parse_line U (length ls, x)")
    case None
    with parse_line_keeps [of U "length ls" x] have "\<not> keeps U x" by simp
    with None snoc f l show ?thesis by (simp add: parse_entries_snoc)
  next
    case (Some e)
    with parse_line_keeps [of U "length ls" x] have "keeps U x" by simp
    with Some snoc f l parse_line_fields [OF Some] show ?thesis
      by (simp add: parse_entries_snoc)
  qed
qed

lemma dropped_line_indices:
  "map index (parse_reference_entries ascii_db dropped_line_example) = [1]"
  "length (parse_reference_entries ascii_db dropped_line_example) = 1"
  by code_simp+

text \<open>
  C3, as the code has it: \<open>index\<close> is the position of the line among the lines handed
  to the parser (\<open>enumerate\<close>), so \<open>raw\<close> is the line at \<open>index\<close>, the indices
  emitted are the positions of the lines kept, in rising order, and a line that is dropped
  takes up its index all the same.
\<close>

theorem entry_index_is_line_position:
  "map index (parse_reference_entries U ls) = filter (\<lambda>i. keeps U (ls ! i)) [0..<length ls]
   \<and> list_all (\<lambda>e. index e < length ls \<and> raw e = ls ! index e) (parse_reference_entries U ls)
   \<and> sorted_wrt (<) (map index (parse_reference_entries U ls))"
proof -
  have "sorted_wrt (<) (filter (\<lambda>i. keeps U (ls ! i)) [0..<length ls])"
    by (rule sorted_wrt_filter) (rule sorted_wrt_upt)
  with parse_entries_index [of U ls] show ?thesis by simp
qed

theorem entry_index_is_line_position_witness:
  "filter (\<lambda>i. keeps ascii_db (dropped_line_example ! i)) [0..<length dropped_line_example] = [1]
   \<and> sorted_wrt (<) (map index (parse_reference_entries ascii_db dropped_line_example))"
proof -
  from entry_index_is_line_position [of ascii_db dropped_line_example]
  have a: "map index (parse_reference_entries ascii_db dropped_line_example)
         = filter (\<lambda>i. keeps ascii_db (dropped_line_example ! i)) [0..<length dropped_line_example]"
    and b: "sorted_wrt (<) (map index (parse_reference_entries ascii_db dropped_line_example))"
    by blast+
  from a [symmetric] have
    "filter (\<lambda>i. keeps ascii_db (dropped_line_example ! i)) [0..<length dropped_line_example] = [1]"
    unfolding dropped_line_indices(1) .
  with b show ?thesis by blast
qed

text \<open>
  C3 as stated fails: after a line with no year in it, the one entry emitted has index 1
  and not 0.
\<close>

theorem dropped_line_consumes_index_counterexample:
  "map index (parse_reference_entries ascii_db dropped_line_example) = [1]
   \<and> map index (parse_reference_entries ascii_db dropped_line_example)
       \<noteq> [0..<length (parse_reference_entries ascii_db dropped_line_example)]"
  unfolding dropped_line_indices by simp

section \<open>The reconciliation\<close>

lemma smith_citations:
  "extract_citations ascii_db (extract_text_from_docx smith_doc) = [str ''Smith, 2020'', str ''2020a'']"
  by code_simp

lemma smith_matches:
  "finditer ascii_db author_year_rx (str ''Smith, 2020'')
     = [([(2, str ''2020''), (1, str ''Smith'')], str ''Smith, 2020'')]"
  "finditer ascii_db author_year_rx (str ''2020a'') = []"
  by code_simp+

lemma smith_values:
  "normalize_author ascii_db (strip ascii_db (str ''Smith'')) = str ''smith''"
  "make_key (str ''smith'') (str ''2020'') = str ''smith|2020''"
  "str ''smith'' \<noteq> []"
  "str ''smith|2020'' \<noteq> str ''smith|2020a''"
  by code_simp+

lemma smith_add_match:
  "add_match ascii_db cit ([(2, str ''2020''), (1, str ''Smith'')], w) m
     = m(str ''smith|2020'' \<mapsto> insert cit (case m (str ''smith|2020'') of None \<Rightarrow> {} | Some ex \<Rightarrow> ex))"
  unfolding add_match_def by (simp add: smith_values Let_def)

lemma smith_examples:
  "build_citation_keys ascii_db [str ''Smith, 2020'', str ''2020a'']
     = [str ''smith|2020'' \<mapsto> {str ''Smith, 2020''}]"
  unfolding build_citation_keys_def
  by (simp only: fold_simps smith_matches smith_add_match) simp

lemma smith_lines:
  "extract_reference_paragraphs ascii_db smith_doc = [str ''Smith, J. (2020a). Title.'']"
  by code_simp

lemma smith_ref_keys:
  "map key (parse_reference_entries ascii_db [str ''Smith, J. (2020a). Title.'']) = [str ''smith|2020a'']"
  by code_simp

lemma main_smith: "main ascii_db (Some smith_doc) = Inr (projr (main ascii_db (Some smith_doc)))"
  by (simp add: main_def Let_def)

lemma smith_fields:
  "ref_lines (projr (main ascii_db (Some smith_doc))) \<noteq> []"
  "citation_keys (projr (main ascii_db (Some smith_doc))) = {str ''smith|2020''}"
  "ref_keys (projr (main ascii_db (Some smith_doc))) = {str ''smith|2020a''}"
  unfolding main_def Let_def option.case smith_citations smith_lines smith_examples smith_ref_keys
  by (simp_all only: list.simps if_False sum.sel report.select_convs list.set simp_thms
        dom_fun_upd dom_empty option.simps if_False)

text \<open>
  C1: whenever a reference list was found, \<open>missing\<close> is the citation keys less the
  reference keys and \<open>unused\<close> is the reference keys less the citation keys. A key is
  matched only by an entry whose key is the same string: \<open>smith|2020\<close> is not
  \<open>smith|2020a\<close>.
\<close>

theorem reconciliation_is_set_difference:
  assumes "main U (Some doc) = Inr r" and "ref_lines r \<noteq> []"
  shows "missing_keys r = citation_keys r - ref_keys r
       \<and> unused_keys r = ref_keys r - citation_keys r
       \<and> citation_keys r = dom (build_citation_keys U (citations r))
       \<and> ref_keys r = set (map key (parse_reference_entries U (ref_lines r)))
       \<and> (\<forall>k. (k \<in> missing_keys r) = (k \<in> citation_keys r \<and> \<not> list_ex (\<lambda>e. key e = k) (ref_entries r)))
       \<and> (\<forall>k. (k \<in> unused_keys r) = (list_ex (\<lambda>e. key e = k) (ref_entries r) \<and> k \<notin> citation_keys r))
       \<and> str ''smith|2020'' \<noteq> str ''smith|2020a''"
proof -
  let ?r = "projr (main U (Some doc))"
  from assms(1) have r: "r = ?r" by simp
  have ne: "extract_reference_paragraphs U doc \<noteq> []"
  proof
    assume "extract_reference_paragraphs U doc = []"
    then have "ref_lines ?r = []" by (simp add: main_def Let_def)
    with assms(2) r show False by simp
  qed
  have 1: "missing_keys ?r = citation_keys ?r - ref_keys ?r"
    and 2: "unused_keys ?r = ref_keys ?r - citation_keys ?r"
    and 3: "citation_keys ?r = dom (build_citation_keys U (citations ?r))"
    and 4: "ref_keys ?r = set (map key (parse_reference_entries U (ref_lines ?r)))"
    and 5: "ref_keys ?r = set (map key (ref_entries ?r))"
    using ne by (simp_all add: main_def Let_def)
  have 6: "\<And>k. (k \<in> ref_keys ?r) = list_ex (\<lambda>e. key e = k) (ref_entries ?r)"
    unfolding 5 list_ex_iff by auto
  have 7: "\<forall>k. (k \<in> missing_keys ?r) = (k \<in> citation_keys ?r \<and> \<not> list_ex (\<lambda>e. key e = k) (ref_entries ?r))"
    unfolding 1 using 6 by simp
  have 8: "\<forall>k. (k \<in> unused_keys ?r) = (list_ex (\<lambda>e. key e = k) (ref_entries ?r) \<and> k \<notin> citation_keys ?r)"
    unfolding 2 using 6 by simp
  from 1 2 3 4 7 8 smith_values(4) show ?thesis unfolding r [symmetric] by blast
qed

theorem reconciliation_is_set_difference_witness:
  "main ascii_db (Some smith_doc) = Inr (projr (main ascii_db (Some smith_doc)))
   \<and> ref_lines (projr (main ascii_db (Some smith_doc))) \<noteq> []
   \<and> missing_keys (projr (main ascii_db (Some smith_doc))) = {str ''smith|2020''}
   \<and> unused_keys (projr (main ascii_db (Some smith_doc))) = {str ''smith|2020a''}"
proof -
  from reconciliation_is_set_difference [OF main_smith smith_fields(1)]
  have m: "missing_keys (projr (main ascii_db (Some smith_doc)))
         = citation_keys (projr (main ascii_db (Some smith_doc)))
           - ref_keys (projr (main ascii_db (Some smith_doc)))"
    and u: "unused_keys (projr (main ascii_db (Some smith_doc)))
         = ref_keys (projr (main ascii_db (Some smith_doc)))
           - citation_keys (projr (main ascii_db (Some smith_doc)))"
    by blast+
  have "missing_keys (projr (main ascii_db (Some smith_doc))) = {str ''smith|2020''}"
    unfolding m smith_fields using smith_values(4) by simp
  moreover have "unused_keys (projr (main ascii_db (Some smith_doc))) = {str ''smith|2020a''}"
    unfolding u smith_fields using smith_values(4) by simp
  ultimately show ?thesis using main_smith smith_fields(1) by blast
qed

section \<open>Both groups take part in every author and year match\<close>

text \<open>
  So \<open>m.group(1)\<close> and \<open>m.group(2)\<close> are never \<open>None\<close> in \<open>build_citation_keys\<close>,
  and the last case of \<open>add_match\<close> is never taken.
\<close>

lemma ends_group_free:
  "group_free p \<Longrightarrow> (g, r) \<in> set (ends U p s) \<Longrightarrow> g = []"
proof (induction U p s arbitrary: g r rule: ends.induct)
  case (1 U "is" s)
  then show ?case unfolding ends_class_iff by blast
next
  case (2 U "is" s)
  then show ?case unfolding ends_class_iff by blast
next
  case (3 U a b s)
  from "3.prems"(2) obtain g1 r1 g2 where
    a: "(g1, r1) \<in> set (ends U a s)" and b: "(g2, r) \<in> set (ends U b r1)" and g: "g = g2 @ g1"
    unfolding ends_Seq_iff by blast
  from "3.prems"(1) have fa: "group_free a" and fb: "group_free b" by simp_all
  from "3.IH"(1) [OF fa a] "3.IH"(2) [OF a refl fb b] g show ?case by simp
next
  case (4 U a s)
  from "4.prems"(2) have "(g, r) \<in> set (ends U a s) \<or> g = []" unfolding ends_Opt_iff by blast
  with "4.IH" "4.prems"(1) show ?case by auto
next
  case (5 U a s)
  from "5.prems"(2) consider "g = []" |
    g1 r1 g2 where "(g1, r1) \<in> set (ends U a s)" "length r1 < length s"
      "(g2, r) \<in> set (ends U (Star a) r1)" "g = g2 @ g1"
    unfolding ends_Star_iff [of g r U a s] by blast
  then show ?case
  proof cases
    case 1
    then show ?thesis .
  next
    case 2
    from "5.prems"(1) have fa: "group_free a" by simp
    from "5.IH"(1) [OF fa 2(1)] "5.IH"(2) [OF 2(1) refl 2(2) "5.prems"(1) 2(3)] 2(4)
    show ?thesis by simp
  qed
next
  case (6 U a s)
  from "6.prems"(2) consider "g = []" |
    g1 r1 g2 where "(g1, r1) \<in> set (ends U a s)" "length r1 < length s"
      "(g2, r) \<in> set (ends U (Lazy a) r1)" "g = g2 @ g1"
    unfolding ends_Lazy_iff [of g r U a s] by blast
  then show ?case
  proof cases
    case 1
    then show ?thesis .
  next
    case 2
    from "6.prems"(1) have fa: "group_free a" by simp
    from "6.IH"(1) [OF fa 2(1)] "6.IH"(2) [OF 2(1) refl 2(2) "6.prems"(1) 2(3)] 2(4)
    show ?thesis by simp
  qed
next
  case (7 U n a s)
  then show ?case by simp
next
  case (8 U s)
  then show ?case by (simp split: if_splits)
qed

lemma author_year_groups:
  assumes "(g, r) \<in> set (ends U author_year_rx s)"
  shows "\<exists>author y. g = [(2, y), (1, author)]"
proof -
  let ?head = "Seq (Any [Rng (ord CHR ''A'') (ord CHR ''Z'')]) (Lazy (Non [Ch (ord CHR '','')]))"
  from assms obtain g1 r1 g2 r2 g3 r3 g4 where
    1: "(g1, r1) \<in> set (ends U (Grp 1 ?head) s)" and
    2: "(g2, r2) \<in> set (ends U (lit CHR '','') r1)" and
    3: "(g3, r3) \<in> set (ends U (Star (Any [Spc])) r2)" and
    4: "(g4, r) \<in> set (ends U (Grp 2 year_rx) r3)" and
    g: "g = ((g4 @ g3) @ g2) @ g1"
    unfolding author_year_rx_def seqs.simps ends_Seq_iff by blast
  from 1 obtain h1 where h1: "(h1, r1) \<in> set (ends U ?head s)"
    and g1: "g1 = (1, take (length s - length r1) s) # h1" unfolding ends_Grp_iff by blast
  from 4 obtain h4 where h4: "(h4, r) \<in> set (ends U year_rx r3)"
    and g4: "g4 = (2, take (length r3 - length r) r3) # h4" unfolding ends_Grp_iff by blast
  have "h1 = []" by (rule ends_group_free [OF _ h1]) simp
  moreover have "h4 = []" by (rule ends_group_free [OF _ h4]) (simp add: year_rx_def)
  moreover have "g2 = []" by (rule ends_group_free [OF _ 2]) (simp add: lit_def)
  moreover have "g3 = []" by (rule ends_group_free [OF _ 3]) simp
  ultimately show ?thesis unfolding g g1 g4 by simp
qed

lemma add_match_groups:
  assumes "m \<in> set (finditer U author_year_rx cit)"
  shows "\<exists>author y. map_of (fst m) 1 = Some author \<and> map_of (fst m) 2 = Some y"
proof -
  obtain g w where m: "m = (g, w)" by (cases m)
  from finditer_sound [of g w U author_year_rx cit] assms m
  obtain r where "(g, r) \<in> set (ends U author_year_rx (w @ r))" by blast
  from author_year_groups [OF this] m show ?thesis by auto
qed

end
